theory Spec2Isabelle
  imports Main "HOL-Library.Word" "HOL-Library.Multiset"
begin

section \<open>Strings: the generic-suffix stripping of \<open>withoutTypeParams\<close>\<close>

text \<open>
  Go strings are byte sequences; \<open>strings.Index(in, "[")\<close> and
  \<open>strings.LastIndex(in, "]")\<close> search for a one-byte substring and return the byte
  offset of its first (last) occurrence, or \<open>-1\<close> when there is none. Offsets are Go
  \<open>int\<close>s; no arithmetic on them can overflow here, so they are modelled as \<open>int\<close>.
\<close>

fun strings_Index :: "string \<Rightarrow> char \<Rightarrow> int" where
  "strings_Index [] c = -1"
| "strings_Index (x # xs) c =
     (if x = c then 0
      else (let k = strings_Index xs c in if k < 0 then -1 else k + 1))"

fun strings_LastIndex :: "string \<Rightarrow> char \<Rightarrow> int" where
  "strings_LastIndex [] c = -1"
| "strings_LastIndex (x # xs) c =
     (let k = strings_LastIndex xs c in
      if 0 \<le> k then k + 1 else if x = c then 0 else -1)"

text \<open>
  \<^verbatim>\<open>
  func withoutTypeParams(in string) string {
      i := strings.Index(in, "[")
      j := strings.LastIndex(in, "]")
      if i >= 0 && j >= 0 && j > i {
          return in[:i] + in[j+1:]
      }
      return in
  }
  \<close>
\<close>

definition withoutTypeParams :: "string \<Rightarrow> string" where
  "withoutTypeParams inp =
     (let i = strings_Index inp (CHR ''['');
          j = strings_LastIndex inp (CHR '']'')
      in if i \<ge> 0 \<and> j \<ge> 0 \<and> j > i
         then take (nat i) inp @ drop (nat (j + 1)) inp
         else inp)"

section \<open>Data model\<close>

text \<open>
  \<^verbatim>\<open>
  type Func struct {
      Name               string
      startLine, endLine int
  }
  type FuncRange struct {
      Rng [2]uint64
      Fn  *Func
  }
  \<close>
  Line numbers are Go \<open>int\<close>s that are only compared, never computed with; they are
  modelled as \<open>int\<close>. Program counters are \<open>uint64\<close>, compared unsigned.
  A \<open>*Func\<close> is an address into a store of \<open>Func\<close> objects, or \<open>nil\<close>
  (\<open>None\<close>): two pointers are the same object exactly when the addresses are equal.
  Go has no dangling pointers, so the store is total on addresses.
\<close>

type_synonym uint64 = "64 word"

record Func =
  Name :: string
  startLine :: int
  endLine :: int

type_synonym addr = nat

type_synonym FuncPtr = "addr option"

record FuncRange =
  Rng :: "uint64 \<times> uint64"
  Fn :: FuncPtr

text \<open>
  A panic of the program: \<open>must(err)\<close> with a non-nil error (carrying the error's
  text), a nil pointer dereference, or an index out of range.
\<close>

datatype panic = ErrorPanic string | NilDereference | IndexOutOfRange

text \<open>
  The function index \<open>funcs map[string]*Func\<close> together with the store its pointers
  point into. \<open>fresh\<close> is the next unused address; \<open>&Func{...}\<close> allocates there.
\<close>

record State =
  funcs :: "string \<Rightarrow> FuncPtr option"
  cells :: "addr \<Rightarrow> Func"
  fresh :: addr

text \<open>Reading \<open>funcs[name]\<close>: the zero value \<open>nil\<close> when the key is absent.\<close>

definition mapIndex :: "(string \<Rightarrow> FuncPtr option) \<Rightarrow> string \<Rightarrow> FuncPtr" where
  "mapIndex m k = (case m k of None \<Rightarrow> None | Some p \<Rightarrow> p)"

section \<open>Function index: \<open>getLineRanges\<close>\<close>

text \<open>
  The parser is an external collaborator. Of a \<open>*ast.FuncDecl\<close> the code reads
  \<open>n.Recv\<close> (nil, or a field list of which it takes \<open>List[0].Type\<close>),
  \<open>n.Name.Name\<close>, and the lines of \<open>fset.Position(n.Pos())\<close> and
  \<open>fset.Position(n.End())\<close>. Type expressions are kept abstract (\<open>'x\<close>); rendering
  them, \<open>exprToString\<close>, is a parameter.
  \<open>ast.Inspect\<close> walks the file in source order; the callback returns \<open>false\<close> at a
  \<open>FuncDecl\<close> (no descent) and \<open>true\<close> at every other node. In Go's grammar a
  \<open>FuncDecl\<close> occurs only as a top-level declaration, so the walk amounts to a pass
  over the file's declarations in order, where every other declaration changes nothing.
\<close>

record 'x FuncDecl =
  Recv :: "'x list option"
  DeclName :: string
  PosLine :: int
  EndLine :: int

datatype 'x Decl = FuncDeclNode "'x FuncDecl" | OtherNode

text \<open>
  \<^verbatim>\<open>
  name := n.Name.Name
  if n.Recv != nil {
      name = "(" + withoutTypeParams(exprToString(n.Recv.List[0].Type)) + ")." + name
  }
  \<close>
\<close>

definition declName :: "('x \<Rightarrow> string) \<Rightarrow> 'x FuncDecl \<Rightarrow> panic + string" where
  "declName exprToString n =
     (case Recv n of
        None \<Rightarrow> Inr (DeclName n)
      | Some flds \<Rightarrow>
          (case flds of
             [] \<Rightarrow> Inl IndexOutOfRange
           | t # _ \<Rightarrow> Inr (''('' @ withoutTypeParams (exprToString t) @ '').'' @ DeclName n)))"

text \<open>
  \<^verbatim>\<open>
  funcs["main."+name] = &Func{Name: "main." + name, startLine: s.Line, endLine: e.Line}
  \<close>
\<close>

definition recordFunc :: "string \<Rightarrow> int \<Rightarrow> int \<Rightarrow> State \<Rightarrow> State" where
  "recordFunc name s e st =
     st\<lparr>funcs := (funcs st)(''main.'' @ name \<mapsto> Some (fresh st)),
        cells := (cells st)(fresh st := \<lparr>Name = ''main.'' @ name, startLine = s, endLine = e\<rparr>),
        fresh := Suc (fresh st)\<rparr>"

fun inspectDecls :: "('x \<Rightarrow> string) \<Rightarrow> 'x Decl list \<Rightarrow> State \<Rightarrow> panic + State" where
  "inspectDecls exprToString [] st = Inr st"
| "inspectDecls exprToString (OtherNode # ds) st = inspectDecls exprToString ds st"
| "inspectDecls exprToString (FuncDeclNode n # ds) st =
     (case declName exprToString n of
        Inl p \<Rightarrow> Inl p
      | Inr name \<Rightarrow>
          inspectDecls exprToString ds (recordFunc name (PosLine n) (EndLine n) st))"

text \<open>
  \<open>parser.ParseFile\<close> returns the file or an error; \<open>must(err)\<close> panics on the error.
\<close>

definition getLineRanges ::
  "('x \<Rightarrow> string) \<Rightarrow> string + 'x Decl list \<Rightarrow> State \<Rightarrow> panic + State" where
  "getLineRanges exprToString parsed st =
     (case parsed of
        Inl err \<Rightarrow> Inl (ErrorPanic err)
      | Inr decls \<Rightarrow> inspectDecls exprToString decls st)"

section \<open>Decoded debug information\<close>

text \<open>
  The DWARF decoder is an external collaborator, modelled by what the code reads from it.
  An entry has a tag and a list of fields (attribute, value); \<open>e.Val(a)\<close> is the value of
  the first field with attribute \<open>a\<close>, or nil. A value is a Go interface value: only
  its dynamic type matters to the type assertions \<open>.(string)\<close> and \<open>.(uint64)\<close>.
  \<open>dw.Reader()\<close> yields the successive results of \<open>rdr.Next()\<close>: an error or an
  entry, and \<open>(nil, nil)\<close> once the list is exhausted. \<open>dw.LineReader(e)\<close> yields an
  error, nil (no line table) or a line reader, whose successive \<open>Next\<close> results are an
  error or a row, and \<open>io.EOF\<close> once exhausted. A row's \<open>File\<close> is a pointer that the
  decoder may leave nil.
\<close>

datatype DwTag = TagCompileUnit | TagSubprogram | TagOther nat

datatype DwAttr = AttrName | AttrLowpc | AttrHighpc | AttrOther nat

datatype Value = VString string | VUint64 uint64 | VInt64 int | VOther

record Entry =
  Offset :: nat
  Tag :: DwTag
  Field :: "(DwAttr \<times> Value) list"

record LineFile =
  FileName :: string

record LineEntry =
  Address :: uint64
  File :: "LineFile option"
  Line :: int
  IsStmt :: bool

type_synonym LineProg = "(string + LineEntry) list"

record Data =
  Reader :: "(string + Entry) list"
  LineReader :: "Entry \<Rightarrow> string + LineProg option"

definition Val :: "Entry \<Rightarrow> DwAttr \<Rightarrow> Value option" where
  "Val e a = map_of (Field e) a"

text \<open>The comma-ok type assertions: the zero value and \<open>false\<close> on a mismatch.\<close>

fun assertString :: "Value option \<Rightarrow> string \<times> bool" where
  "assertString (Some (VString s)) = (s, True)"
| "assertString _ = ([], False)"

fun assertUint64 :: "Value option \<Rightarrow> uint64 \<times> bool" where
  "assertUint64 (Some (VUint64 w)) = (w, True)"
| "assertUint64 _ = (0, False)"

section \<open>PC ranges: \<open>getPCRanges\<close>\<close>

text \<open>The loop of \<open>getPCRanges\<close>, with the slice \<open>r\<close> as accumulator.\<close>

fun collectRanges ::
  "(string \<Rightarrow> FuncPtr option) \<Rightarrow> (string + Entry) list \<Rightarrow> FuncRange list
     \<Rightarrow> panic + FuncRange list" where
  "collectRanges fs [] r = Inr r"
| "collectRanges fs (Inl err # rest) r = Inl (ErrorPanic err)"
| "collectRanges fs (Inr e # rest) r =
     (if Tag e \<noteq> TagSubprogram then collectRanges fs rest r
      else
        let (name, okname) = assertString (Val e AttrName);
            (low, oklow) = assertUint64 (Val e AttrLowpc);
            (high, okhigh) = assertUint64 (Val e AttrHighpc)
        in if \<not> okname \<or> \<not> oklow \<or> \<not> okhigh then collectRanges fs rest r
           else
             let name' = withoutTypeParams name;
                 fn = mapIndex fs name'
             in if fn = None then collectRanges fs rest r
                else collectRanges fs rest (r @ [\<lparr>Rng = (low, high), Fn = fn\<rparr>]))"

text \<open>
  \<open>sort.Slice\<close> belongs to the Go standard library and is a parameter \<open>srt\<close> of the
  model, taking the \<open>less\<close> function and the slice. Its documented contract: for a
  \<open>less\<close> that is a strict weak ordering the result is a permutation of the input in
  which no element is \<open>less\<close> than an earlier one; stability is not promised.
\<close>

definition sortSlice_contract :: "(('a \<Rightarrow> 'a \<Rightarrow> bool) \<Rightarrow> 'a list \<Rightarrow> 'a list) \<Rightarrow> bool" where
  "sortSlice_contract srt =
     (\<forall>lt xs.
        (\<forall>a. \<not> lt a a) \<and>
        (\<forall>a b c. lt a b \<and> lt b c \<longrightarrow> lt a c) \<and>
        (\<forall>a b c. \<not> lt a b \<and> \<not> lt b c \<longrightarrow> \<not> lt a c)
        \<longrightarrow> mset (srt lt xs) = mset xs \<and> sorted_wrt (\<lambda>a b. \<not> lt b a) (srt lt xs))"

text \<open>
  \<open>sort.Slice\<close> reaches the elements of the slice only through \<open>less\<close> and through
  swaps, so the permutation it applies depends on the outcomes of \<open>less\<close> alone:
  relabelling the elements by a function that leaves every comparison as it was relabels
  the result in the same way.
\<close>

definition sortSlice_parametric ::
  "(('a \<Rightarrow> 'a \<Rightarrow> bool) \<Rightarrow> 'a list \<Rightarrow> 'a list) \<Rightarrow> bool" where
  "sortSlice_parametric srt =
     (\<forall>f lt xs. (\<forall>a b. lt (f a) (f b) = lt a b) \<longrightarrow> srt lt (map f xs) = map f (srt lt xs))"

text \<open>
  \<^verbatim>\<open>
  sort.Slice(r, func(i, j int) bool { return r[i].Rng[0] < r[j].Rng[0] })
  return r
  \<close>
\<close>

definition getPCRanges ::
  "((FuncRange \<Rightarrow> FuncRange \<Rightarrow> bool) \<Rightarrow> FuncRange list \<Rightarrow> FuncRange list)
     \<Rightarrow> Data \<Rightarrow> (string \<Rightarrow> FuncPtr option) \<Rightarrow> panic + FuncRange list" where
  "getPCRanges srt dw fs =
     (case collectRanges fs (Reader dw) [] of
        Inl p \<Rightarrow> Inl p
      | Inr r \<Rightarrow> Inr (srt (\<lambda>a b. fst (Rng a) < fst (Rng b)) r))"

text \<open>An insertion sort, one function that meets the contract; it instantiates \<open>srt\<close>.\<close>

fun insertBy :: "('a \<Rightarrow> 'a \<Rightarrow> bool) \<Rightarrow> 'a \<Rightarrow> 'a list \<Rightarrow> 'a list" where
  "insertBy lt x [] = [x]"
| "insertBy lt x (y # ys) = (if lt x y then x # y # ys else y # insertBy lt x ys)"

fun insertionSort :: "('a \<Rightarrow> 'a \<Rightarrow> bool) \<Rightarrow> 'a list \<Rightarrow> 'a list" where
  "insertionSort lt [] = []"
| "insertionSort lt (x # xs) = insertBy lt x (insertionSort lt xs)"

section \<open>Address lookup: \<open>getFunc\<close>\<close>

text \<open>
  \<^verbatim>\<open>
  for i := range funcRanges {
      if funcRanges[i].Rng[0] <= pc && pc < funcRanges[i].Rng[1] {
          return funcRanges[i].Fn
      }
  }
  return nil
  \<close>
\<close>

fun getFunc :: "uint64 \<Rightarrow> FuncRange list \<Rightarrow> FuncPtr" where
  "getFunc pc [] = None"
| "getFunc pc (r # rs) =
     (if fst (Rng r) \<le> pc \<and> pc < snd (Rng r) then Fn r else getFunc pc rs)"

section \<open>Line check: \<open>checkLines\<close>\<close>

text \<open>
  Standard output is the state of \<open>checkLines\<close>: each \<open>fmt.Printf\<close> appends one line,
  kept as the record of its four arguments. \<open>filepath.Base\<close> is a parameter \<open>base\<close>;
  the older copy of the program kept in the same source file prints \<open>lne.File.Name\<close> as
  it is, which is \<open>base\<close> taken as the identity, and agrees in everything else modelled.
  A run returns the output so far and the panic that ended it, if any.
\<close>

record Violation =
  vFile :: string
  vLine :: int
  vAddress :: uint64
  vFunc :: string

definition onlyStmt :: bool where
  "onlyStmt = False"

text \<open>The inner loop, over the rows of one compile unit's line table.\<close>

fun lineLoop ::
  "(string \<Rightarrow> string) \<Rightarrow> (addr \<Rightarrow> Func) \<Rightarrow> FuncRange list \<Rightarrow> LineProg
     \<Rightarrow> Violation list \<Rightarrow> Violation list \<times> panic option" where
  "lineLoop base mem funcRanges [] out = (out, None)"
| "lineLoop base mem funcRanges (Inl err # rest) out = (out, Some (ErrorPanic err))"
| "lineLoop base mem funcRanges (Inr lne # rest) out =
     (if onlyStmt \<and> \<not> IsStmt lne then lineLoop base mem funcRanges rest out
      else
        case getFunc (Address lne) funcRanges of
          None \<Rightarrow> lineLoop base mem funcRanges rest out
        | Some fn \<Rightarrow>
            if Line lne < startLine (mem fn) \<or> Line lne > endLine (mem fn)
            then (case File lne of
                    None \<Rightarrow> (out, Some NilDereference)
                  | Some lf \<Rightarrow>
                      lineLoop base mem funcRanges rest
                        (out @ [\<lparr>vFile = base (FileName lf), vLine = Line lne,
                                 vAddress = Address lne, vFunc = Name (mem fn)\<rparr>]))
            else lineLoop base mem funcRanges rest out)"

text \<open>The outer loop, over the entries of the debug information.\<close>

fun unitLoop ::
  "(string \<Rightarrow> string) \<Rightarrow> (addr \<Rightarrow> Func) \<Rightarrow> FuncRange list
     \<Rightarrow> (Entry \<Rightarrow> string + LineProg option) \<Rightarrow> (string + Entry) list
     \<Rightarrow> Violation list \<Rightarrow> Violation list \<times> panic option" where
  "unitLoop base mem funcRanges lr [] out = (out, None)"
| "unitLoop base mem funcRanges lr (Inl err # rest) out = (out, Some (ErrorPanic err))"
| "unitLoop base mem funcRanges lr (Inr e # rest) out =
     (if Tag e \<noteq> TagCompileUnit then unitLoop base mem funcRanges lr rest out
      else
        case lr e of
          Inl err \<Rightarrow> (out, Some (ErrorPanic err))
        | Inr None \<Rightarrow> (out, Some NilDereference)
        | Inr (Some prog) \<Rightarrow>
            (case lineLoop base mem funcRanges prog out of
               (out', Some p) \<Rightarrow> (out', Some p)
             | (out', None) \<Rightarrow> unitLoop base mem funcRanges lr rest out'))"

text \<open>The parameter \<open>funcs\<close> of \<open>checkLines\<close> is not used by its body.\<close>

definition checkLines ::
  "(string \<Rightarrow> string) \<Rightarrow> (addr \<Rightarrow> Func) \<Rightarrow> Data \<Rightarrow> (string \<Rightarrow> FuncPtr option)
     \<Rightarrow> FuncRange list \<Rightarrow> Violation list \<Rightarrow> Violation list \<times> panic option" where
  "checkLines base mem dw fs funcRanges out =
     unitLoop base mem funcRanges (LineReader dw) (Reader dw) out"

text \<open>
  The two checking stages as \<open>main\<close> runs them on one input:
  \<^verbatim>\<open>
  funcRanges := getPCRanges(dw, funcs)
  checkLines(dw, funcs, funcRanges)
  \<close>
\<close>

definition checkStages ::
  "((FuncRange \<Rightarrow> FuncRange \<Rightarrow> bool) \<Rightarrow> FuncRange list \<Rightarrow> FuncRange list)
     \<Rightarrow> (string \<Rightarrow> string) \<Rightarrow> (addr \<Rightarrow> Func) \<Rightarrow> Data \<Rightarrow> (string \<Rightarrow> FuncPtr option)
     \<Rightarrow> Violation list \<Rightarrow> Violation list \<times> panic option" where
  "checkStages srt base mem dw fs out =
     (case getPCRanges srt dw fs of
        Inl p \<Rightarrow> (out, Some p)
      | Inr funcRanges \<Rightarrow> checkLines base mem dw fs funcRanges out)"

text \<open>
  The stages of \<open>main\<close> for one input whose build and DWARF decoding succeeded, with
  \<open>dw\<close> their result. The map \<open>funcs\<close> is made anew; the store is whatever the run
  finds (\<open>st\<close>):
  \<^verbatim>\<open>
  funcs := make(map[string]*Func)
  getLineRanges(arg, funcs)
  ...
  funcRanges := getPCRanges(dw, funcs)
  checkLines(dw, funcs, funcRanges)
  \<close>
\<close>

definition pipeline ::
  "((FuncRange \<Rightarrow> FuncRange \<Rightarrow> bool) \<Rightarrow> FuncRange list \<Rightarrow> FuncRange list)
     \<Rightarrow> (string \<Rightarrow> string) \<Rightarrow> ('x \<Rightarrow> string) \<Rightarrow> string + 'x Decl list \<Rightarrow> Data
     \<Rightarrow> State \<Rightarrow> Violation list \<Rightarrow> Violation list \<times> panic option" where
  "pipeline srt base exprToString parsed dw st out =
     (case getLineRanges exprToString parsed (st\<lparr>funcs := (\<lambda>k. None)\<rparr>) of
        Inl p \<Rightarrow> (out, Some p)
      | Inr st' \<Rightarrow> checkStages srt base (cells st') dw (funcs st') out)"

section \<open>Notions used to state the properties\<close>

text \<open>
  The range that one pass of the loop of \<open>getPCRanges\<close> appends for the record
  \<open>e\<close>, or \<open>None\<close> when the pass skips it; \<open>collectRanges_step\<close> below proves
  that this is what the loop does.
\<close>

definition entryRange :: "(string \<Rightarrow> FuncPtr option) \<Rightarrow> Entry \<Rightarrow> FuncRange option" where
  "entryRange fs e =
     (if Tag e \<noteq> TagSubprogram then None
      else case (Val e AttrName, Val e AttrLowpc, Val e AttrHighpc) of
             (Some (VString nm), Some (VUint64 lo), Some (VUint64 hi)) \<Rightarrow>
               (case mapIndex fs (withoutTypeParams nm) of
                  None \<Rightarrow> None
                | Some p \<Rightarrow> Some \<lparr>Rng = (lo, hi), Fn = Some p\<rparr>)
           | _ \<Rightarrow> None)"

text \<open>The entries a reader yields, errors left out.\<close>

fun entriesOf :: "(string + Entry) list \<Rightarrow> Entry list" where
  "entriesOf [] = []"
| "entriesOf (Inl err # rest) = entriesOf rest"
| "entriesOf (Inr e # rest) = e # entriesOf rest"

text \<open>The address \<open>pc\<close> lies in the half-open interval \<open>[low, high)\<close> of a range.\<close>

definition inRange :: "FuncRange \<Rightarrow> uint64 \<Rightarrow> bool" where
  "inRange r pc = (fst (Rng r) \<le> pc \<and> pc < snd (Rng r))"

text \<open>The low and high PC that \<open>getPCRanges\<close> reads from a record.\<close>

definition lowpc :: "Entry \<Rightarrow> uint64" where
  "lowpc e = fst (assertUint64 (Val e AttrLowpc))"

definition highpc :: "Entry \<Rightarrow> uint64" where
  "highpc e = fst (assertUint64 (Val e AttrHighpc))"

text \<open>
  Two runs of the program allocate their \<open>Func\<close> objects at different addresses.
  \<open>moveFn\<close> relabels the pointer of a range; \<open>sameIndex\<close> relates the states of two
  runs that started allocating at \<open>f1\<close> and at \<open>f2\<close> and have recorded the same
  declarations: the same names, pointers that differ by the offset between \<open>f1\<close> and
  \<open>f2\<close>, and equal objects behind them.
\<close>

definition moveFn :: "(addr \<Rightarrow> addr) \<Rightarrow> FuncRange \<Rightarrow> FuncRange" where
  "moveFn \<pi> r = r\<lparr>Fn := map_option \<pi> (Fn r)\<rparr>"

definition sameIndex :: "addr \<Rightarrow> addr \<Rightarrow> State \<Rightarrow> State \<Rightarrow> bool" where
  "sameIndex f1 f2 s1 s2 =
     (f1 \<le> fresh s1 \<and> fresh s2 + f1 = fresh s1 + f2 \<and>
      (\<forall>k. funcs s2 k = map_option (map_option (\<lambda>p. p + f2 - f1)) (funcs s1 k)) \<and>
      (\<forall>k p. funcs s1 k = Some (Some p) \<longrightarrow> f1 \<le> p \<and> p < fresh s1) \<and>
      (\<forall>p. f1 \<le> p \<and> p < fresh s1 \<longrightarrow> cells s2 (p + f2 - f1) = cells s1 p))"

section \<open>A worked example\<close>

text \<open>
  A source file with a function \<open>Add\<close> on line 3, a generic function \<open>Base\<close> on
  lines 5 to 7 and a method \<open>Get\<close> of a generic type \<open>Box\<close> on lines 10 to 12, its
  function index, and debug information and line tables for a binary compiled from it.
  The theorems below are applied to these inputs.
\<close>

definition demo_decls :: "string Decl list" where
  "demo_decls =
     [OtherNode,
      FuncDeclNode \<lparr>Recv = None, DeclName = ''Add'', PosLine = 3, EndLine = 3\<rparr>,
      FuncDeclNode \<lparr>Recv = None, DeclName = ''Base'', PosLine = 5, EndLine = 7\<rparr>,
      FuncDeclNode \<lparr>Recv = Some [''*Box[T]''], DeclName = ''Get'', PosLine = 10, EndLine = 12\<rparr>]"

definition demo_init :: State where
  "demo_init = \<lparr>funcs = (\<lambda>k. None), cells = (\<lambda>a. \<lparr>Name = [], startLine = 0, endLine = 0\<rparr>),
                 fresh = 100\<rparr>"

definition demo_index :: State where
  "demo_index =
     recordFunc ''(*Box).Get'' 10 12
       (recordFunc ''Base'' 5 7 (recordFunc ''Add'' 3 3 demo_init))"

definition subprogram :: "nat \<Rightarrow> string \<Rightarrow> uint64 \<Rightarrow> uint64 \<Rightarrow> Entry" where
  "subprogram off nm lo hi =
     \<lparr>Offset = off, Tag = TagSubprogram,
      Field = [(AttrName, VString nm), (AttrLowpc, VUint64 lo), (AttrHighpc, VUint64 hi)]\<rparr>"

definition demo_unit :: Entry where
  "demo_unit = \<lparr>Offset = 11, Tag = TagCompileUnit, Field = [(AttrName, VString ''main'')]\<rparr>"

definition demo_nameless :: Entry where
  "demo_nameless =
     \<lparr>Offset = 60, Tag = TagSubprogram,
      Field = [(AttrLowpc, VUint64 0x6000), (AttrHighpc, VUint64 0x6010)]\<rparr>"

definition demo_row :: "uint64 \<Rightarrow> int \<Rightarrow> LineEntry" where
  "demo_row a l = \<lparr>Address = a, File = Some \<lparr>FileName = ''/src/file.go''\<rparr>, Line = l,
                    IsStmt = True\<rparr>"

definition demo_prog :: LineProg where
  "demo_prog =
     [Inr (demo_row 0x1000 5), Inr (demo_row 0x2010 7), Inr (demo_row 0x3000 99),
      Inr (demo_row 0x9000 1), Inr (demo_row 0x4008 12)]"

definition demo_dw :: Data where
  "demo_dw =
     \<lparr>Reader =
        [Inr demo_unit,
         Inr (subprogram 20 ''main.Base[go.shape.int]'' 0x2000 0x2040),
         Inr demo_nameless,
         Inr (subprogram 30 ''main.Add'' 0x3000 0x3020),
         Inr (subprogram 40 ''main.Base[go.shape.string]'' 0x1000 0x1030),
         Inr (subprogram 50 ''runtime.main'' 0x7000 0x7100),
         Inr (subprogram 70 ''main.(*Box[go.shape.int]).Get'' 0x4000 0x4010)],
      LineReader = (\<lambda>e. if Tag e = TagCompileUnit then Inr (Some demo_prog) else Inr None)\<rparr>"

definition demo_ranges :: "FuncRange list" where
  "demo_ranges =
     [\<lparr>Rng = (0x1000, 0x1030), Fn = Some 101\<rparr>,
      \<lparr>Rng = (0x2000, 0x2040), Fn = Some 101\<rparr>,
      \<lparr>Rng = (0x3000, 0x3020), Fn = Some 100\<rparr>,
      \<lparr>Rng = (0x4000, 0x4010), Fn = Some 102\<rparr>]"

definition demo_base :: "string \<Rightarrow> string" where
  "demo_base p = drop (nat (strings_LastIndex p (CHR ''/'') + 1)) p"

definition overlap_ranges :: "FuncRange list" where
  "overlap_ranges =
     [\<lparr>Rng = (0x1000, 0x2000), Fn = Some 100\<rparr>,
      \<lparr>Rng = (0x1800, 0x2800), Fn = Some 101\<rparr>,
      \<lparr>Rng = (0x3000, 0x3020), Fn = Some 102\<rparr>]"

definition degenerate_dw :: Data where
  "degenerate_dw =
     \<lparr>Reader =
        [Inr (subprogram 80 ''main.Add'' 0x5000 0x5000),
         Inr (subprogram 90 ''main.Base[go.shape.int]'' 0x2040 0x2000)],
      LineReader = (\<lambda>e. Inr None)\<rparr>"

definition degenerate_ranges :: "FuncRange list" where
  "degenerate_ranges =
     [\<lparr>Rng = (0x2040, 0x2000), Fn = Some 101\<rparr>,
      \<lparr>Rng = (0x5000, 0x5000), Fn = Some 100\<rparr>]"

text \<open>
  The same binary with a line table whose first row, inside \<open>main.Add\<close>, reports line 99
  and has no file.
\<close>

definition nilfile_dw :: Data where
  "nilfile_dw =
     demo_dw\<lparr>LineReader :=
       (\<lambda>e. if Tag e = TagCompileUnit
            then Inr (Some [Inr \<lparr>Address = 0x3000, File = None, Line = 99, IsStmt = True\<rparr>,
                            Inr (demo_row 0x3008 98)])
            else Inr None)\<rparr>"

section \<open>Properties of the string search\<close>

lemma strings_Index_lower: "- 1 \<le> strings_Index s c"
  by (induction s) (auto simp: Let_def)

lemma strings_Index_upper: "strings_Index s c < int (length s)"
  by (induction s) (auto simp: Let_def)

lemma strings_Index_absent: "c \<notin> set s \<Longrightarrow> strings_Index s c = - 1"
  by (induction s) (auto simp: Let_def)

lemma strings_Index_present: "c \<in> set s \<Longrightarrow> 0 \<le> strings_Index s c"
  by (induction s) (auto simp: Let_def)

lemma strings_Index_hit:
  "0 \<le> strings_Index s c \<Longrightarrow> s ! nat (strings_Index s c) = c"
proof (induction s)
  case Nil
  then show ?case by simp
next
  case (Cons x xs)
  show ?case
  proof (cases "x = c")
    case True
    then show ?thesis by simp
  next
    case False
    with Cons.prems have k: "0 \<le> strings_Index xs c"
      by (simp add: Let_def split: if_splits)
    with Cons.IH have "xs ! nat (strings_Index xs c) = c" by simp
    with False k show ?thesis
      by (simp add: Let_def nat_add_distrib)
  qed
qed

lemma strings_Index_prefix_free:
  "c \<notin> set (take (nat (strings_Index s c)) s)"
proof (induction s)
  case Nil
  then show ?case by simp
next
  case (Cons x xs)
  show ?case
  proof (cases "x = c")
    case True
    then show ?thesis by simp
  next
    case False
    show ?thesis
    proof (cases "strings_Index xs c < 0")
      case True
      with False show ?thesis by (simp add: Let_def)
    next
      case neg: False
      then have "nat (strings_Index xs c + 1) = Suc (nat (strings_Index xs c))"
        by simp
      with False neg Cons.IH show ?thesis by (simp add: Let_def)
    qed
  qed
qed

lemma strings_Index_append:
  "c \<notin> set p \<Longrightarrow>
     strings_Index (p @ q) c =
       (if strings_Index q c < 0 then - 1 else int (length p) + strings_Index q c)"
  using strings_Index_lower [of q c] by (induction p) (auto simp: Let_def)

lemma strings_LastIndex_lower: "- 1 \<le> strings_LastIndex s c"
  by (induction s) (auto simp: Let_def)

lemma strings_LastIndex_upper: "strings_LastIndex s c < int (length s)"
  by (induction s) (auto simp: Let_def)

lemma strings_LastIndex_absent: "c \<notin> set s \<Longrightarrow> strings_LastIndex s c = - 1"
  by (induction s) (auto simp: Let_def)

lemma strings_LastIndex_hit:
  "0 \<le> strings_LastIndex s c \<Longrightarrow> s ! nat (strings_LastIndex s c) = c"
proof (induction s)
  case Nil
  then show ?case by simp
next
  case (Cons x xs)
  show ?case
  proof (cases "0 \<le> strings_LastIndex xs c")
    case True
    with Cons.IH have "xs ! nat (strings_LastIndex xs c) = c" by simp
    with True show ?thesis by (simp add: Let_def nat_add_distrib)
  next
    case False
    with Cons.prems show ?thesis by (simp add: Let_def split: if_splits)
  qed
qed

lemma strings_LastIndex_suffix_free:
  "c \<notin> set (drop (nat (strings_LastIndex s c + 1)) s)"
proof (induction s)
  case Nil
  then show ?case by simp
next
  case (Cons x xs)
  show ?case
  proof (cases "0 \<le> strings_LastIndex xs c")
    case True
    then have "nat (strings_LastIndex xs c + 1 + 1) = Suc (nat (strings_LastIndex xs c + 1))"
      by simp
    with True Cons.IH show ?thesis by (simp add: Let_def)
  next
    case False
    with strings_LastIndex_lower [of xs c] have m: "strings_LastIndex xs c = - 1" by simp
    with Cons.IH have free: "c \<notin> set xs" by simp
    with m show ?thesis by (simp add: Let_def)
  qed
qed

lemma strings_LastIndex_append:
  "c \<notin> set q \<Longrightarrow> strings_LastIndex (p @ q) c = strings_LastIndex p c"
  by (induction p) (auto simp: Let_def strings_LastIndex_absent)

lemma withoutTypeParams_fixed:
  assumes "CHR ''['' \<notin> set p" and "CHR '']'' \<notin> set q"
  shows "withoutTypeParams (p @ q) = p @ q"
proof -
  let ?i = "strings_Index (p @ q) (CHR ''['')"
  let ?j = "strings_LastIndex (p @ q) (CHR '']'')"
  have j: "?j < int (length p)"
    using assms(2) strings_LastIndex_upper [of p "CHR '']''"]
    by (simp add: strings_LastIndex_append)
  have i: "0 \<le> ?i \<Longrightarrow> int (length p) \<le> ?i"
    using assms(1) by (simp add: strings_Index_append split: if_splits)
  from i j have "\<not> (0 \<le> ?i \<and> 0 \<le> ?j \<and> ?i < ?j)" by linarith
  then show ?thesis by (auto simp: withoutTypeParams_def Let_def)
qed

section \<open>Sorting\<close>

lemma mset_insertBy: "mset (insertBy lt x xs) = add_mset x (mset xs)"
  by (induction xs) simp_all

lemma set_insertBy: "set (insertBy lt x xs) = insert x (set xs)"
  by (induction xs) auto

lemma mset_insertionSort: "mset (insertionSort lt xs) = mset xs"
  by (induction xs) (simp_all add: mset_insertBy)

lemma sorted_insertBy:
  assumes irr: "\<And>a. \<not> lt a a"
    and tr: "\<And>a b c. lt a b \<Longrightarrow> lt b c \<Longrightarrow> lt a c"
    and inc: "\<And>a b c. \<not> lt a b \<Longrightarrow> \<not> lt b c \<Longrightarrow> \<not> lt a c"
    and srt: "sorted_wrt (\<lambda>a b. \<not> lt b a) xs"
  shows "sorted_wrt (\<lambda>a b. \<not> lt b a) (insertBy lt x xs)"
  using srt
proof (induction xs)
  case Nil
  then show ?case by simp
next
  case (Cons y ys)
  show ?case
  proof (cases "lt x y")
    case True
    have yx: "\<not> lt y x"
    proof
      assume "lt y x"
      with True have "lt x x" by (rule tr)
      with irr show False by simp
    qed
    have "\<forall>z\<in>set ys. \<not> lt z x"
    proof
      fix z assume "z \<in> set ys"
      with Cons.prems have "\<not> lt z y" by simp
      then show "\<not> lt z x" using yx by (rule inc)
    qed
    with True yx Cons.prems show ?thesis by simp
  next
    case False
    from Cons have "sorted_wrt (\<lambda>a b. \<not> lt b a) (insertBy lt x ys)" by simp
    with False Cons.prems show ?thesis by (simp add: set_insertBy)
  qed
qed

lemma sorted_insertionSort:
  assumes irr: "\<And>a. \<not> lt a a"
    and tr: "\<And>a b c. lt a b \<Longrightarrow> lt b c \<Longrightarrow> lt a c"
    and inc: "\<And>a b c. \<not> lt a b \<Longrightarrow> \<not> lt b c \<Longrightarrow> \<not> lt a c"
  shows "sorted_wrt (\<lambda>a b. \<not> lt b a) (insertionSort lt xs)"
proof (induction xs)
  case Nil
  then show ?case by simp
next
  case (Cons x xs)
  have "sorted_wrt (\<lambda>a b. \<not> lt b a) (insertBy lt x (insertionSort lt xs))"
    using irr tr inc Cons.IH by (rule sorted_insertBy)
  then show ?case by simp
qed

lemma insertionSort_contract: "sortSlice_contract insertionSort"
  unfolding sortSlice_contract_def
proof (intro allI impI)
  fix lt :: "'a \<Rightarrow> 'a \<Rightarrow> bool" and xs
  assume h: "(\<forall>a. \<not> lt a a) \<and> (\<forall>a b c. lt a b \<and> lt b c \<longrightarrow> lt a c) \<and>
        (\<forall>a b c. \<not> lt a b \<and> \<not> lt b c \<longrightarrow> \<not> lt a c)"
  have irr: "\<And>a. \<not> lt a a" using h by simp
  have tr: "\<And>a b c. lt a b \<Longrightarrow> lt b c \<Longrightarrow> lt a c" using h by meson
  have inc: "\<And>a b c. \<not> lt a b \<Longrightarrow> \<not> lt b c \<Longrightarrow> \<not> lt a c" using h by meson
  have "sorted_wrt (\<lambda>a b. \<not> lt b a) (insertionSort lt xs)"
    using irr tr inc by (rule sorted_insertionSort)
  then show "mset (insertionSort lt xs) = mset xs \<and>
      sorted_wrt (\<lambda>a b. \<not> lt b a) (insertionSort lt xs)"
    by (simp add: mset_insertionSort)
qed

lemma assertString_ok: "assertString v = (s, True) \<longleftrightarrow> v = Some (VString s)"
  by (cases v rule: assertString.cases) simp_all

lemma assertString_fail: "snd (assertString v) = False \<longleftrightarrow> (\<forall>s. v \<noteq> Some (VString s))"
  by (cases v rule: assertString.cases) simp_all

lemma assertUint64_ok: "assertUint64 v = (w, True) \<longleftrightarrow> v = Some (VUint64 w)"
  by (cases v rule: assertUint64.cases) simp_all

lemma assertUint64_fail: "snd (assertUint64 v) = False \<longleftrightarrow> (\<forall>w. v \<noteq> Some (VUint64 w))"
  by (cases v rule: assertUint64.cases) simp_all

lemma collectRanges_step:
  "collectRanges fs (Inr e # rest) r =
     collectRanges fs rest (case entryRange fs e of None \<Rightarrow> r | Some x \<Rightarrow> r @ [x])"
proof (cases "Tag e = TagSubprogram")
  case False
  then show ?thesis by (simp add: entryRange_def)
next
  case True
  obtain nm okn where n: "assertString (Val e AttrName) = (nm, okn)" by force
  obtain lo okl where l: "assertUint64 (Val e AttrLowpc) = (lo, okl)" by force
  obtain hi okh where h: "assertUint64 (Val e AttrHighpc) = (hi, okh)" by force
  show ?thesis
  proof (cases "okn \<and> okl \<and> okh")
    case ok: True
    with n l h have v: "Val e AttrName = Some (VString nm)"
        "Val e AttrLowpc = Some (VUint64 lo)" "Val e AttrHighpc = Some (VUint64 hi)"
      by (simp_all add: assertString_ok assertUint64_ok)
    show ?thesis using True ok n l h v
      by (cases "mapIndex fs (withoutTypeParams nm)") (simp_all add: entryRange_def)
  next
    case bad: False
    then consider "\<not> okn" | "\<not> okl" | "\<not> okh" by blast
    then have "entryRange fs e = None"
    proof cases
      case 1
      with n have "\<forall>s. Val e AttrName \<noteq> Some (VString s)"
        using assertString_fail [of "Val e AttrName"] by simp
      then show ?thesis
        by (auto simp: entryRange_def split: option.splits Value.splits)
    next
      case 2
      with l have "\<forall>w. Val e AttrLowpc \<noteq> Some (VUint64 w)"
        using assertUint64_fail [of "Val e AttrLowpc"] by simp
      then show ?thesis
        by (auto simp: entryRange_def split: option.splits Value.splits)
    next
      case 3
      with h have "\<forall>w. Val e AttrHighpc \<noteq> Some (VUint64 w)"
        using assertUint64_fail [of "Val e AttrHighpc"] by simp
      then show ?thesis
        by (auto simp: entryRange_def split: option.splits Value.splits)
    qed
    with True bad n l h show ?thesis by auto
  qed
qed

lemma collectRanges_append:
  "collectRanges fs (xs @ ys) r =
     (case collectRanges fs xs r of Inl p \<Rightarrow> Inl p | Inr r' \<Rightarrow> collectRanges fs ys r')"
proof (induction xs arbitrary: r)
  case Nil
  then show ?case by simp
next
  case (Cons x xs)
  show ?case
  proof (cases x)
    case (Inl err)
    then show ?thesis by simp
  next
    case (Inr e)
    then show ?thesis using Cons.IH by (simp only: collectRanges_step append_Cons)
  qed
qed

lemma collectRanges_result:
  "collectRanges fs es r = Inr r' \<Longrightarrow> r' = r @ List.map_filter (entryRange fs) (entriesOf es)"
proof (induction es arbitrary: r)
  case Nil
  then show ?case by (simp add: List.map_filter_simps)
next
  case (Cons x xs)
  show ?case
  proof (cases x)
    case (Inl err)
    with Cons.prems show ?thesis by simp
  next
    case (Inr e)
    with Cons.prems have
      "collectRanges fs xs (case entryRange fs e of None \<Rightarrow> r | Some x \<Rightarrow> r @ [x]) = Inr r'"
      by (simp only: collectRanges_step)
    then have "r' = (case entryRange fs e of None \<Rightarrow> r | Some x \<Rightarrow> r @ [x])
        @ List.map_filter (entryRange fs) (entriesOf xs)"
      by (rule Cons.IH)
    with Inr show ?thesis
      by (cases "entryRange fs e") (simp_all add: List.map_filter_simps)
  qed
qed

section \<open>Lookup and line check\<close>

lemma getFunc_first:
  "i < length rs \<Longrightarrow> inRange (rs ! i) pc \<Longrightarrow> (\<forall>j<i. \<not> inRange (rs ! j) pc)
     \<Longrightarrow> getFunc pc rs = Fn (rs ! i)"
proof (induction rs arbitrary: i)
  case Nil
  then show ?case by simp
next
  case (Cons r rs)
  show ?case
  proof (cases i)
    case 0
    with Cons.prems show ?thesis by (simp add: inRange_def)
  next
    case (Suc k)
    with Cons.prems have "\<not> inRange r pc" by auto
    moreover have "getFunc pc rs = Fn (rs ! k)"
    proof (rule Cons.IH)
      show "k < length rs" using Cons.prems Suc by simp
      show "inRange (rs ! k) pc" using Cons.prems Suc by simp
      show "\<forall>j<k. \<not> inRange (rs ! j) pc"
      proof (intro allI impI)
        fix j assume "j < k"
        then have "Suc j < i" using Suc by simp
        with Cons.prems(3) have "\<not> inRange ((r # rs) ! Suc j) pc" by blast
        then show "\<not> inRange (rs ! j) pc" by simp
      qed
    qed
    ultimately show ?thesis using Suc by (auto simp: inRange_def)
  qed
qed

lemma getFunc_none: "\<forall>r\<in>set rs. \<not> inRange r pc \<Longrightarrow> getFunc pc rs = None"
  by (induction rs) (auto simp: inRange_def)

lemma getFunc_drop_empty:
  "\<not> inRange r pc \<Longrightarrow> getFunc pc (xs @ r # ys) = getFunc pc (xs @ ys)"
  by (induction xs) (auto simp: inRange_def)

lemma lineLoop_append:
  "lineLoop b m rs (xs @ ys) out =
     (case lineLoop b m rs xs out of
        (o1, None) \<Rightarrow> lineLoop b m rs ys o1
      | (o1, Some p) \<Rightarrow> (o1, Some p))"
proof (induction xs arbitrary: out)
  case Nil
  then show ?case by simp
next
  case (Cons x xs)
  show ?case
  proof (cases x)
    case (Inl err)
    then show ?thesis by simp
  next
    case (Inr lne)
    then show ?thesis using Cons.IH
      by (simp add: onlyStmt_def split: option.splits)
  qed
qed

lemma lineLoop_output:
  "lineLoop b m rs prog out =
     (out @ fst (lineLoop b m rs prog []), snd (lineLoop b m rs prog []))"
proof (induction prog arbitrary: out)
  case Nil
  then show ?case by simp
next
  case (Cons x xs)
  show ?case
  proof (cases x)
    case (Inl err)
    then show ?thesis by simp
  next
    case (Inr lne)
    show ?thesis
    proof (cases "getFunc (Address lne) rs")
      case None
      with Inr Cons.IH [of out] show ?thesis by (simp add: onlyStmt_def)
    next
      case (Some fn)
      show ?thesis
      proof (cases "Line lne < startLine (m fn) \<or> Line lne > endLine (m fn)")
        case False
        with Some Inr Cons.IH [of out] show ?thesis by (simp add: onlyStmt_def)
      next
        case True
        show ?thesis
        proof (cases "File lne")
          case None
          with True Some Inr show ?thesis by (simp add: onlyStmt_def)
        next
          case (Some lf)
          let ?v = "\<lparr>vFile = b (FileName lf), vLine = Line lne,
                      vAddress = Address lne, vFunc = Name (m fn)\<rparr>"
          have "lineLoop b m rs (x # xs) out = lineLoop b m rs xs (out @ [?v])"
            using True \<open>getFunc (Address lne) rs = Some fn\<close> Some Inr
            by (simp add: onlyStmt_def)
          also have "\<dots> = ((out @ [?v]) @ fst (lineLoop b m rs xs []),
              snd (lineLoop b m rs xs []))"
            by (rule Cons.IH)
          finally have l: "lineLoop b m rs (x # xs) out =
              (out @ ?v # fst (lineLoop b m rs xs []), snd (lineLoop b m rs xs []))"
            by simp
          have "lineLoop b m rs (x # xs) [] = lineLoop b m rs xs [?v]"
            using True \<open>getFunc (Address lne) rs = Some fn\<close> Some Inr
            by (simp add: onlyStmt_def)
          also have "\<dots> = ([?v] @ fst (lineLoop b m rs xs []),
              snd (lineLoop b m rs xs []))"
            by (rule Cons.IH)
          finally have r: "lineLoop b m rs (x # xs) [] =
              (?v # fst (lineLoop b m rs xs []), snd (lineLoop b m rs xs []))"
            by simp
          from l r show ?thesis by simp
        qed
      qed
    qed
  qed
qed

lemma unitLoop_output:
  "unitLoop b m rs lr es out =
     (out @ fst (unitLoop b m rs lr es []), snd (unitLoop b m rs lr es []))"
proof (induction es arbitrary: out)
  case Nil
  then show ?case by simp
next
  case (Cons x xs)
  show ?case
  proof (cases x)
    case (Inl err)
    then show ?thesis by simp
  next
    case (Inr e)
    show ?thesis
    proof (cases "Tag e = TagCompileUnit")
      case False
      with Inr Cons.IH [of out] show ?thesis by simp
    next
      case True
      show ?thesis
      proof (cases "lr e")
        case (Inl err)
        with True Inr show ?thesis by simp
      next
        case r: (Inr lrd)
        show ?thesis
        proof (cases lrd)
          case None
          with r True Inr show ?thesis by simp
        next
          case (Some prog)
          obtain vs res where p0: "lineLoop b m rs prog [] = (vs, res)" by force
          have p1: "lineLoop b m rs prog out = (out @ vs, res)"
            using lineLoop_output [of b m rs prog out] p0 by simp
          show ?thesis
          proof (cases res)
            case None
            have "unitLoop b m rs lr (x # xs) out = unitLoop b m rs lr xs (out @ vs)"
              using Inr True r Some p1 None by simp
            moreover have "unitLoop b m rs lr (x # xs) [] = unitLoop b m rs lr xs vs"
              using Inr True r Some p0 None by simp
            moreover have "unitLoop b m rs lr xs (out @ vs) =
                ((out @ vs) @ fst (unitLoop b m rs lr xs []), snd (unitLoop b m rs lr xs []))"
              by (rule Cons.IH)
            moreover have "unitLoop b m rs lr xs vs =
                (vs @ fst (unitLoop b m rs lr xs []), snd (unitLoop b m rs lr xs []))"
              by (rule Cons.IH)
            ultimately show ?thesis by simp
          next
            case (Some p)
            with Inr True r \<open>lrd = Some prog\<close> p0 p1 show ?thesis by simp
          qed
        qed
      qed
    qed
  qed
qed

section \<open>The PC range resolver\<close>

lemma getPCRanges_result:
  assumes c: "sortSlice_contract srt" and run: "getPCRanges srt dw fs = Inr rs"
  shows "mset rs = mset (List.map_filter (entryRange fs) (entriesOf (Reader dw)))"
    and "sorted_wrt (\<lambda>a b. fst (Rng a) \<le> fst (Rng b)) rs"
proof -
  let ?lt = "\<lambda>a b :: FuncRange. fst (Rng a) < fst (Rng b)"
  from run obtain r where r: "collectRanges fs (Reader dw) [] = Inr r"
    and rs: "rs = srt ?lt r"
    by (auto simp: getPCRanges_def split: sum.splits)
  have swo: "(\<forall>a. \<not> ?lt a a) \<and> (\<forall>a b c. ?lt a b \<and> ?lt b c \<longrightarrow> ?lt a c) \<and>
      (\<forall>a b c. \<not> ?lt a b \<and> \<not> ?lt b c \<longrightarrow> \<not> ?lt a c)"
    by (auto simp: not_less)
  have ms: "mset (srt ?lt r) = mset r \<and> sorted_wrt (\<lambda>a b. \<not> ?lt b a) (srt ?lt r)"
    by (rule c [unfolded sortSlice_contract_def, rule_format]) (rule swo)
  then have m: "mset (srt ?lt r) = mset r"
    and s: "sorted_wrt (\<lambda>a b. \<not> ?lt b a) (srt ?lt r)"
    by (rule conjunct1, rule conjunct2)
  from collectRanges_result [OF r] have "r = List.map_filter (entryRange fs) (entriesOf (Reader dw))"
    by simp
  with m rs show "mset rs = mset (List.map_filter (entryRange fs) (entriesOf (Reader dw)))"
    by simp
  from s rs show "sorted_wrt (\<lambda>a b. fst (Rng a) \<le> fst (Rng b)) rs"
    by (simp add: not_less)
qed

lemma mset_map_filter_mono:
  "mset xs \<subseteq># mset ys \<Longrightarrow> mset (List.map_filter f xs) \<subseteq># mset (List.map_filter f ys)"
proof -
  assume sub: "mset xs \<subseteq># mset ys"
  have "filter_mset (\<lambda>x. f x \<noteq> None) (mset xs) \<subseteq># filter_mset (\<lambda>x. f x \<noteq> None) (mset ys)"
    using sub by (rule multiset_filter_mono)
  then have "image_mset (the \<circ> f) (filter_mset (\<lambda>x. f x \<noteq> None) (mset xs)) \<subseteq>#
      image_mset (the \<circ> f) (filter_mset (\<lambda>x. f x \<noteq> None) (mset ys))"
    by (rule image_mset_subseteq_mono)
  then show ?thesis by (simp add: List.map_filter_def)
qed

lemma map_filter_all_Some:
  "\<forall>x\<in>set xs. f x = Some (g x) \<Longrightarrow> List.map_filter f xs = map g xs"
  by (induction xs) (simp_all add: List.map_filter_simps)

lemma entryRange_Some:
  assumes "Tag e = TagSubprogram" and "Val e AttrName = Some (VString nm)"
    and "Val e AttrLowpc = Some (VUint64 lo)" and "Val e AttrHighpc = Some (VUint64 hi)"
  shows "entryRange fs e =
    (case mapIndex fs (withoutTypeParams nm) of None \<Rightarrow> None
     | Some p \<Rightarrow> Some \<lparr>Rng = (lo, hi), Fn = Some p\<rparr>)"
  using assms by (simp add: entryRange_def)

lemma entryRange_SomeD:
  assumes "entryRange fs e = Some r"
  shows "\<exists>nm. Tag e = TagSubprogram \<and> Val e AttrName = Some (VString nm) \<and>
     Val e AttrLowpc = Some (VUint64 (fst (Rng r))) \<and>
     Val e AttrHighpc = Some (VUint64 (snd (Rng r))) \<and>
     Fn r \<noteq> None \<and> Fn r = mapIndex fs (withoutTypeParams nm)"
  using assms
  by (auto simp: entryRange_def split: if_splits option.splits Value.splits)

lemma entryRange_None:
  assumes "Val e AttrName = None \<or> Val e AttrLowpc = None \<or> Val e AttrHighpc = None \<or>
      (\<exists>nm. Val e AttrName = Some (VString nm) \<and> fs (withoutTypeParams nm) = None)"
  shows "entryRange fs e = None"
  using assms
  by (auto simp: entryRange_def mapIndex_def split: option.splits Value.splits)

lemma set_map_filter: "set (List.map_filter f xs) = {y. \<exists>x\<in>set xs. f x = Some y}"
  by (induction xs) (auto simp: List.map_filter_simps split: option.splits)

section \<open>The function index builder\<close>



section \<open>The worked example, evaluated\<close>

lemma demo_index_run: "getLineRanges (\<lambda>t. t) (Inr demo_decls) demo_init = Inr demo_index"
  by (simp add: getLineRanges_def demo_decls_def declName_def withoutTypeParams_def
      demo_index_def)

lemma demo_funcs_values:
  "funcs demo_index ''main.Add'' = Some (Some 100)"
  "funcs demo_index ''main.Base'' = Some (Some 101)"
  "funcs demo_index ''main.(*Box).Get'' = Some (Some 102)"
  "funcs demo_index ''runtime.main'' = None"
  by (simp_all add: demo_index_def demo_init_def recordFunc_def)

lemma demo_cells_values:
  "cells demo_index 100 = \<lparr>Name = ''main.Add'', startLine = 3, endLine = 3\<rparr>"
  "cells demo_index 101 = \<lparr>Name = ''main.Base'', startLine = 5, endLine = 7\<rparr>"
  "cells demo_index 102 = \<lparr>Name = ''main.(*Box).Get'', startLine = 10, endLine = 12\<rparr>"
  by (simp_all add: demo_index_def demo_init_def recordFunc_def)

lemma demo_strip:
  "withoutTypeParams ''main.Base[go.shape.int]'' = ''main.Base''"
  "withoutTypeParams ''main.Base[go.shape.string]'' = ''main.Base''"
  "withoutTypeParams ''main.(*Box[go.shape.int]).Get'' = ''main.(*Box).Get''"
  "withoutTypeParams ''main.Add'' = ''main.Add''"
  "withoutTypeParams ''runtime.main'' = ''runtime.main''"
  by (simp_all add: withoutTypeParams_def)

lemma demo_collect:
  "collectRanges (funcs demo_index) (Reader demo_dw) [] =
     Inr [\<lparr>Rng = (0x2000, 0x2040), Fn = Some 101\<rparr>,
          \<lparr>Rng = (0x3000, 0x3020), Fn = Some 100\<rparr>,
          \<lparr>Rng = (0x1000, 0x1030), Fn = Some 101\<rparr>,
          \<lparr>Rng = (0x4000, 0x4010), Fn = Some 102\<rparr>]"
  by (simp add: demo_dw_def demo_unit_def demo_nameless_def subprogram_def Val_def
      demo_strip demo_funcs_values mapIndex_def Let_def)

lemma demo_ranges_run: "getPCRanges insertionSort demo_dw (funcs demo_index) = Inr demo_ranges"
  by (simp add: getPCRanges_def demo_collect demo_ranges_def)

lemma demo_check:
  "checkLines demo_base (cells demo_index) demo_dw (funcs demo_index) demo_ranges [] =
     ([\<lparr>vFile = ''file.go'', vLine = 99, vAddress = 0x3000, vFunc = ''main.Add''\<rparr>], None)"
  by (simp add: checkLines_def demo_dw_def demo_unit_def demo_nameless_def subprogram_def
      demo_prog_def demo_row_def demo_ranges_def demo_cells_values onlyStmt_def demo_base_def)

lemma degenerate_run:
  "getPCRanges insertionSort degenerate_dw (funcs demo_index) = Inr degenerate_ranges"
  by (simp add: getPCRanges_def degenerate_dw_def subprogram_def Val_def demo_strip
      demo_funcs_values mapIndex_def Let_def degenerate_ranges_def)

section \<open>Runs that allocate at different addresses\<close>

lemma insertBy_map:
  assumes "\<And>a b. lt (f a) (f b) = lt a b"
  shows "insertBy lt (f x) (map f ys) = map f (insertBy lt x ys)"
  by (induction ys) (simp_all add: assms)

lemma insertionSort_map:
  assumes "\<And>a b. lt (f a) (f b) = lt a b"
  shows "insertionSort lt (map f xs) = map f (insertionSort lt xs)"
proof (induction xs)
  case Nil
  then show ?case by simp
next
  case (Cons x xs)
  have "insertionSort lt (map f (x # xs)) = insertBy lt (f x) (map f (insertionSort lt xs))"
    using Cons.IH by simp
  also have "\<dots> = map f (insertBy lt x (insertionSort lt xs))"
    using assms by (rule insertBy_map)
  finally show ?case by simp
qed

lemma insertionSort_parametric: "sortSlice_parametric insertionSort"
  unfolding sortSlice_parametric_def
proof (intro allI impI)
  fix f :: "'a \<Rightarrow> 'a" and lt :: "'a \<Rightarrow> 'a \<Rightarrow> bool" and xs
  assume "\<forall>a b. lt (f a) (f b) = lt a b"
  then have "\<And>a b. lt (f a) (f b) = lt a b" by simp
  then show "insertionSort lt (map f xs) = map f (insertionSort lt xs)"
    by (rule insertionSort_map)
qed

lemma sameIndex_recordFunc:
  assumes "sameIndex f1 f2 s1 s2"
  shows "sameIndex f1 f2 (recordFunc name a b s1) (recordFunc name a b s2)"
proof -
  from assms have a: "f1 \<le> fresh s1" and e: "fresh s2 + f1 = fresh s1 + f2"
    and fs: "\<forall>k. funcs s2 k = map_option (map_option (\<lambda>p. p + f2 - f1)) (funcs s1 k)"
    and rg: "\<forall>k p. funcs s1 k = Some (Some p) \<longrightarrow> f1 \<le> p \<and> p < fresh s1"
    and cl: "\<forall>p. f1 \<le> p \<and> p < fresh s1 \<longrightarrow> cells s2 (p + f2 - f1) = cells s1 p"
    by (simp_all add: sameIndex_def)
  from a e have new: "fresh s1 + f2 - f1 = fresh s2" by arith
  have old: "p + f2 - f1 \<noteq> fresh s2" if "f1 \<le> p" "p < fresh s1" for p
    using that e by arith
  have 1: "f1 \<le> fresh (recordFunc name a b s1)"
    using a by (simp add: recordFunc_def)
  have 2: "fresh (recordFunc name a b s2) + f1 = fresh (recordFunc name a b s1) + f2"
    using e by (simp add: recordFunc_def)
  have 3: "\<forall>k. funcs (recordFunc name a b s2) k =
      map_option (map_option (\<lambda>p. p + f2 - f1)) (funcs (recordFunc name a b s1) k)"
    using fs new by (simp add: recordFunc_def)
  have 4: "\<forall>k p. funcs (recordFunc name a b s1) k = Some (Some p) \<longrightarrow>
      f1 \<le> p \<and> p < fresh (recordFunc name a b s1)"
  proof (intro allI impI)
    fix k p
    assume h: "funcs (recordFunc name a b s1) k = Some (Some p)"
    show "f1 \<le> p \<and> p < fresh (recordFunc name a b s1)"
    proof (cases "k = ''main.'' @ name")
      case True
      with h have "p = fresh s1" by (simp add: recordFunc_def)
      with a show ?thesis by (simp add: recordFunc_def)
    next
      case False
      with h have "funcs s1 k = Some (Some p)" by (simp add: recordFunc_def)
      with rg have "f1 \<le> p \<and> p < fresh s1" by blast
      then show ?thesis by (simp add: recordFunc_def)
    qed
  qed
  have 5: "\<forall>p. f1 \<le> p \<and> p < fresh (recordFunc name a b s1) \<longrightarrow>
      cells (recordFunc name a b s2) (p + f2 - f1) = cells (recordFunc name a b s1) p"
  proof (intro allI impI)
    fix p
    assume h: "f1 \<le> p \<and> p < fresh (recordFunc name a b s1)"
    show "cells (recordFunc name a b s2) (p + f2 - f1) = cells (recordFunc name a b s1) p"
    proof (cases "p = fresh s1")
      case True
      with new show ?thesis by (simp add: recordFunc_def)
    next
      case False
      with h have lt: "f1 \<le> p" "p < fresh s1" by (simp_all add: recordFunc_def)
      then have "p + f2 - f1 \<noteq> fresh s2" by (rule old)
      moreover from cl lt have "cells s2 (p + f2 - f1) = cells s1 p" by blast
      ultimately show ?thesis using False by (simp add: recordFunc_def)
    qed
  qed
  from 1 2 3 4 5 show ?thesis unfolding sameIndex_def by (intro conjI)
qed

lemma sameIndex_inspectDecls:
  assumes "sameIndex f1 f2 s1 s2"
  shows "(\<exists>p. inspectDecls ets ds s1 = Inl p \<and> inspectDecls ets ds s2 = Inl p) \<or>
         (\<exists>t1 t2. inspectDecls ets ds s1 = Inr t1 \<and> inspectDecls ets ds s2 = Inr t2 \<and>
            sameIndex f1 f2 t1 t2)"
  using assms
proof (induction ds arbitrary: s1 s2)
  case Nil
  then show ?case by simp
next
  case (Cons d ds)
  show ?case
  proof (cases d)
    case OtherNode
    with Cons.IH [OF Cons.prems] show ?thesis by simp
  next
    case (FuncDeclNode n)
    show ?thesis
    proof (cases "declName ets n")
      case (Inl p)
      with FuncDeclNode show ?thesis by simp
    next
      case (Inr name)
      from Cons.prems have "sameIndex f1 f2 (recordFunc name (PosLine n) (EndLine n) s1)
          (recordFunc name (PosLine n) (EndLine n) s2)"
        by (rule sameIndex_recordFunc)
      from Cons.IH [OF this] FuncDeclNode Inr show ?thesis by simp
    qed
  qed
qed

lemma sameIndex_initial:
  "sameIndex (fresh st1) (fresh st2) (st1\<lparr>funcs := (\<lambda>k. None)\<rparr>) (st2\<lparr>funcs := (\<lambda>k. None)\<rparr>)"
  by (auto simp: sameIndex_def)

lemma mapIndex_move:
  assumes "\<forall>k. fs2 k = map_option (map_option \<pi>) (fs1 k)"
  shows "mapIndex fs2 k = map_option \<pi> (mapIndex fs1 k)"
proof -
  from assms have "fs2 k = map_option (map_option \<pi>) (fs1 k)" by (rule spec)
  then show ?thesis by (cases "fs1 k") (simp_all add: mapIndex_def)
qed

lemma entryRange_move:
  assumes "\<forall>k. fs2 k = map_option (map_option \<pi>) (fs1 k)"
  shows "entryRange fs2 e = map_option (moveFn \<pi>) (entryRange fs1 e)"
proof (cases "entryRange fs1 e")
  case None
  have "entryRange fs2 e = None"
  proof (rule ccontr)
    assume "entryRange fs2 e \<noteq> None"
    then obtain r where r: "entryRange fs2 e = Some r" by blast
    from entryRange_SomeD [OF r] obtain nm where h: "Tag e = TagSubprogram"
      "Val e AttrName = Some (VString nm)"
      "Val e AttrLowpc = Some (VUint64 (fst (Rng r)))"
      "Val e AttrHighpc = Some (VUint64 (snd (Rng r)))"
      "Fn r \<noteq> None" "Fn r = mapIndex fs2 (withoutTypeParams nm)"
      by (elim exE conjE) (rule that)
    from h(5,6) mapIndex_move [OF assms, of "withoutTypeParams nm"]
    obtain p where "mapIndex fs1 (withoutTypeParams nm) = Some p"
      by (cases "mapIndex fs1 (withoutTypeParams nm)") simp_all
    with h(1-4) have "entryRange fs1 e \<noteq> None"
      by (simp add: entryRange_Some [of e nm "fst (Rng r)" "snd (Rng r)" fs1])
    with None show False by simp
  qed
  with None show ?thesis by simp
next
  case (Some r)
  from entryRange_SomeD [OF Some] obtain nm where h: "Tag e = TagSubprogram"
    "Val e AttrName = Some (VString nm)"
    "Val e AttrLowpc = Some (VUint64 (fst (Rng r)))"
    "Val e AttrHighpc = Some (VUint64 (snd (Rng r)))"
    "Fn r \<noteq> None" "Fn r = mapIndex fs1 (withoutTypeParams nm)"
    by (elim exE conjE) (rule that)
  from h(5) obtain p where p: "Fn r = Some p" by (cases "Fn r") simp_all
  with h(6) have m1: "mapIndex fs1 (withoutTypeParams nm) = Some p" by simp
  then have m2: "mapIndex fs2 (withoutTypeParams nm) = Some (\<pi> p)"
    using mapIndex_move [OF assms, of "withoutTypeParams nm"] by simp
  have "entryRange fs2 e = Some \<lparr>Rng = (fst (Rng r), snd (Rng r)), Fn = Some (\<pi> p)\<rparr>"
    using h(1-4) m2 by (simp add: entryRange_Some [of e nm "fst (Rng r)" "snd (Rng r)" fs2])
  moreover have "moveFn \<pi> r = \<lparr>Rng = (fst (Rng r), snd (Rng r)), Fn = Some (\<pi> p)\<rparr>"
    using p by (cases r) (simp add: moveFn_def)
  ultimately show ?thesis using Some by simp
qed

lemma collectRanges_move:
  assumes "\<forall>k. fs2 k = map_option (map_option \<pi>) (fs1 k)"
  shows "collectRanges fs2 es (map (moveFn \<pi>) r) =
     (case collectRanges fs1 es r of Inl p \<Rightarrow> Inl p | Inr r' \<Rightarrow> Inr (map (moveFn \<pi>) r'))"
proof (induction es arbitrary: r)
  case Nil
  then show ?case by simp
next
  case (Cons x xs)
  show ?case
  proof (cases x)
    case (Inl err)
    then show ?thesis by simp
  next
    case (Inr e)
    show ?thesis
    proof (cases "entryRange fs1 e")
      case None
      then have "entryRange fs2 e = None" using entryRange_move [OF assms, of e] by simp
      with None Inr Cons.IH [of r] show ?thesis by (simp only: collectRanges_step option.case)
    next
      case (Some y)
      then have "entryRange fs2 e = Some (moveFn \<pi> y)"
        using entryRange_move [OF assms, of e] by simp
      moreover have "map (moveFn \<pi>) r @ [moveFn \<pi> y] = map (moveFn \<pi>) (r @ [y])" by simp
      ultimately show ?thesis using Some Inr Cons.IH [of "r @ [y]"]
        by (simp only: collectRanges_step option.case)
    qed
  qed
qed

lemma getFunc_move: "getFunc pc (map (moveFn \<pi>) rs) = map_option \<pi> (getFunc pc rs)"
  by (induction rs) (simp_all add: moveFn_def)

lemma getFunc_Some_mem: "getFunc pc rs = Some p \<Longrightarrow> \<exists>r\<in>set rs. Fn r = Some p"
  by (induction rs) (auto split: if_splits)

lemma lineLoop_move:
  assumes "\<forall>r\<in>set rs. \<forall>p. Fn r = Some p \<longrightarrow> mem2 (\<pi> p) = mem1 p"
  shows "lineLoop base mem2 (map (moveFn \<pi>) rs) prog out = lineLoop base mem1 rs prog out"
proof (induction prog arbitrary: out)
  case Nil
  then show ?case by simp
next
  case (Cons x xs)
  show ?case
  proof (cases x)
    case (Inl err)
    then show ?thesis by simp
  next
    case (Inr lne)
    show ?thesis
    proof (cases "getFunc (Address lne) rs")
      case None
      with Inr Cons.IH show ?thesis by (simp add: getFunc_move onlyStmt_def)
    next
      case (Some p)
      from getFunc_Some_mem [OF Some] assms have "mem2 (\<pi> p) = mem1 p" by blast
      with Some Inr Cons.IH show ?thesis
        by (simp add: getFunc_move onlyStmt_def split: option.splits)
    qed
  qed
qed

lemma unitLoop_move:
  assumes "\<forall>r\<in>set rs. \<forall>p. Fn r = Some p \<longrightarrow> mem2 (\<pi> p) = mem1 p"
  shows "unitLoop base mem2 (map (moveFn \<pi>) rs) lr es out = unitLoop base mem1 rs lr es out"
proof (induction es arbitrary: out)
  case Nil
  then show ?case by simp
next
  case (Cons x xs)
  show ?case
  proof (cases x)
    case (Inl err)
    then show ?thesis by simp
  next
    case (Inr e)
    have ll: "lineLoop base mem2 (map (moveFn \<pi>) rs) prog o1 = lineLoop base mem1 rs prog o1"
      for prog o1 using assms by (rule lineLoop_move)
    from Inr show ?thesis using Cons.IH
      by (simp add: ll split: sum.splits option.splits prod.splits)
  qed
qed

lemma collected_in_index:
  assumes "collectRanges fs es [] = Inr r" and "x \<in> set r"
  shows "\<exists>k p. Fn x = Some p \<and> fs k = Some (Some p)"
proof -
  from collectRanges_result [OF assms(1)] assms(2)
  have "x \<in> set (List.map_filter (entryRange fs) (entriesOf es))" by simp
  then obtain e where "entryRange fs e = Some x" by (auto simp: set_map_filter)
  from entryRange_SomeD [OF this] obtain nm where
    h: "Fn x \<noteq> None" "Fn x = mapIndex fs (withoutTypeParams nm)"
    by (elim exE conjE) (rule that)
  from h(1) obtain p where p: "Fn x = Some p" by (cases "Fn x") auto
  with h(2) have "fs (withoutTypeParams nm) = Some (Some p)"
    by (cases "fs (withoutTypeParams nm)") (simp_all add: mapIndex_def)
  with p show ?thesis by blast
qed

lemma checkStages_output:
  "checkStages srt base mem dw fs out =
     (out @ fst (checkStages srt base mem dw fs []), snd (checkStages srt base mem dw fs []))"
proof (cases "getPCRanges srt dw fs")
  case (Inl p)
  then show ?thesis by (simp add: checkStages_def)
next
  case (Inr rs)
  then show ?thesis
    using unitLoop_output [of base mem rs "LineReader dw" "Reader dw" out]
    by (simp add: checkStages_def checkLines_def)
qed

lemma checkStages_move:
  assumes c: "sortSlice_contract srt" and par: "sortSlice_parametric srt"
    and fs: "\<forall>k. fs2 k = map_option (map_option \<pi>) (fs1 k)"
    and mem: "\<forall>k p. fs1 k = Some (Some p) \<longrightarrow> mem2 (\<pi> p) = mem1 p"
  shows "checkStages srt base mem2 dw fs2 out = checkStages srt base mem1 dw fs1 out"
proof (cases "collectRanges fs1 (Reader dw) []")
  case (Inl p)
  moreover from collectRanges_move [OF fs, of "Reader dw" "[]"] Inl
  have "collectRanges fs2 (Reader dw) [] = Inl p" by simp
  ultimately show ?thesis by (simp add: checkStages_def getPCRanges_def)
next
  case (Inr r)
  let ?lt = "\<lambda>a b :: FuncRange. fst (Rng a) < fst (Rng b)"
  from collectRanges_move [OF fs, of "Reader dw" "[]"] Inr
  have r2: "collectRanges fs2 (Reader dw) [] = Inr (map (moveFn \<pi>) r)" by simp
  have keep: "\<forall>a b. ?lt (moveFn \<pi> a) (moveFn \<pi> b) = ?lt a b" by (simp add: moveFn_def)
  note inst = par [unfolded sortSlice_parametric_def, THEN spec [where x = "moveFn \<pi>"],
      THEN spec [where x = ?lt], THEN spec [where x = r]]
  from inst keep have s2: "srt ?lt (map (moveFn \<pi>) r) = map (moveFn \<pi>) (srt ?lt r)"
    by (rule mp)
  have g1: "getPCRanges srt dw fs1 = Inr (srt ?lt r)"
    using Inr by (simp add: getPCRanges_def)
  have g2: "getPCRanges srt dw fs2 = Inr (map (moveFn \<pi>) (srt ?lt r))"
    using r2 s2 by (simp add: getPCRanges_def)
  have "set (srt ?lt r) = set (List.map_filter (entryRange fs1) (entriesOf (Reader dw)))"
    using getPCRanges_result(1) [OF c g1] by (rule mset_eq_setD)
  also have "\<dots> = set r" using collectRanges_result [OF Inr] by simp
  finally have sr: "set (srt ?lt r) = set r" .
  have ptr: "\<forall>x\<in>set (srt ?lt r). \<forall>p. Fn x = Some p \<longrightarrow> mem2 (\<pi> p) = mem1 p"
  proof (intro ballI allI impI)
    fix x p
    assume "x \<in> set (srt ?lt r)" and p: "Fn x = Some p"
    with sr have "x \<in> set r" by simp
    from collected_in_index [OF Inr this] p obtain k where "fs1 k = Some (Some p)" by auto
    with mem show "mem2 (\<pi> p) = mem1 p" by blast
  qed
  have "unitLoop base mem2 (map (moveFn \<pi>) (srt ?lt r)) (LineReader dw) (Reader dw) out =
      unitLoop base mem1 (srt ?lt r) (LineReader dw) (Reader dw) out"
    using ptr by (rule unitLoop_move)
  then show ?thesis
    using g1 g2 by (simp add: checkStages_def checkLines_def)
qed

lemma demo_pipeline_run:
  "pipeline insertionSort demo_base (\<lambda>t. t) (Inr demo_decls) demo_dw demo_init [] =
     ([\<lparr>vFile = ''file.go'', vLine = 99, vAddress = 0x3000, vFunc = ''main.Add''\<rparr>], None)"
proof -
  have "demo_init\<lparr>funcs := (\<lambda>k. None)\<rparr> = demo_init" by (simp add: demo_init_def)
  then show ?thesis
    by (simp add: pipeline_def demo_index_run checkStages_def demo_ranges_run demo_check)
qed

section \<open>Rows inside a function\<close>

text \<open>
  Where the row names a file the loop reports exactly the rows outside the span: when the
  rows before it have run through leaving the output \<open>out1\<close>, a row \<open>lne\<close> that
  resolves to \<open>fn\<close> makes the loop go on with \<open>out1\<close> extended by the Violation of
  \<open>lne\<close> if its line is outside the span, and with \<open>out1\<close> itself otherwise; a line
  equal to the start or the end of a function with start \<open>\<le>\<close> end is not reported.
\<close>

lemma lineLoop_reports_outside_span:
  assumes "lineLoop base mem funcRanges pre out = (out1, None)"
    and "getFunc (Address lne) funcRanges = Some fn"
    and "File lne = Some lf"
  shows "lineLoop base mem funcRanges (pre @ Inr lne # post) out =
           lineLoop base mem funcRanges post
             (if Line lne < startLine (mem fn) \<or> endLine (mem fn) < Line lne
              then out1 @ [\<lparr>vFile = base (FileName lf), vLine = Line lne,
                            vAddress = Address lne, vFunc = Name (mem fn)\<rparr>]
              else out1) \<and>
         (startLine (mem fn) \<le> endLine (mem fn) \<and>
          (Line lne = startLine (mem fn) \<or> Line lne = endLine (mem fn)) \<longrightarrow>
            lineLoop base mem funcRanges (pre @ Inr lne # post) out =
              lineLoop base mem funcRanges post out1)"
  using assms by (auto simp: lineLoop_append onlyStmt_def)

text \<open>
  A row outside its function's span whose \<open>File\<close> is nil is not reported: evaluating
  \<open>lne.File.Name\<close> panics, whatever rows follow.
\<close>

lemma lineLoop_nil_file:
  assumes "getFunc (Address lne) funcRanges = Some fn"
    and "Line lne < startLine (mem fn) \<or> endLine (mem fn) < Line lne"
    and "File lne = None"
  shows "lineLoop base mem funcRanges (Inr lne # post) out = (out, Some NilDereference)"
  using assms by (simp add: onlyStmt_def)

section \<open>The claims\<close>

text \<open>
  C1. For every LineEntry whose address resolves to an owning SourceFunction, a Violation
  is emitted if and only if the entry's line is strictly less than the function's start
  line or strictly greater than its end line. The code misses a case: \<open>dwarf.LineEntry\<close>
  holds its file as a pointer, which \<open>checkLines\<close> dereferences in the arguments of
  \<open>Printf\<close> without the nil test it makes on the result of \<open>getFunc\<close>. In the line
  table of \<open>nilfile_dw\<close> the first row lies in the range of \<open>main.Add\<close> (line 3 to
  3), reports line 99 and has no file, so a Violation is due; \<open>checkLines\<close> panics
  instead, with nothing printed, and never reaches the next row.
\<close>

theorem checkLines_nil_file_panics:
  "getPCRanges insertionSort nilfile_dw (funcs demo_index) = Inr demo_ranges \<and>
   getFunc 0x3000 demo_ranges = Some 100 \<and>
   cells demo_index 100 = \<lparr>Name = ''main.Add'', startLine = 3, endLine = 3\<rparr> \<and>
   checkLines demo_base (cells demo_index) nilfile_dw (funcs demo_index) demo_ranges [] =
     ([], Some NilDereference)"
proof -
  have "Reader nilfile_dw = Reader demo_dw" by (simp add: nilfile_dw_def)
  then have g: "getPCRanges insertionSort nilfile_dw (funcs demo_index) = Inr demo_ranges"
    using demo_ranges_run by (simp add: getPCRanges_def)
  have f: "getFunc 0x3000 demo_ranges = Some 100" by (simp add: demo_ranges_def)
  have c: "checkLines demo_base (cells demo_index) nilfile_dw (funcs demo_index) demo_ranges [] =
     ([], Some NilDereference)"
    by (simp add: checkLines_def nilfile_dw_def demo_dw_def demo_unit_def demo_ranges_def
        demo_cells_values onlyStmt_def)
  from g f demo_cells_values(1) c show ?thesis by (intro conjI)
qed

text \<open>
  C2. For every address \<open>pc\<close> and every range sequence sorted ascending by low address,
  the lookup returns the function of the first range, in the order of the sequence, with
  \<open>low \<le> pc < high\<close>, and none when no range contains \<open>pc\<close>. Under overlap the range
  that wins has the smallest low address of all ranges containing \<open>pc\<close>.
\<close>

theorem getFunc_first_owner:
  assumes "sorted_wrt (\<lambda>a b. fst (Rng a) \<le> fst (Rng b)) rs"
  shows "(\<forall>i<length rs. inRange (rs ! i) pc \<and> (\<forall>j<i. \<not> inRange (rs ! j) pc) \<longrightarrow>
            getFunc pc rs = Fn (rs ! i) \<and>
            (\<forall>j<length rs. inRange (rs ! j) pc \<longrightarrow> fst (Rng (rs ! i)) \<le> fst (Rng (rs ! j)))) \<and>
         ((\<forall>r\<in>set rs. \<not> inRange r pc) \<longrightarrow> getFunc pc rs = None)"
proof (intro conjI allI impI)
  fix i
  assume i: "i < length rs"
    and own: "inRange (rs ! i) pc \<and> (\<forall>j<i. \<not> inRange (rs ! j) pc)"
  then show "getFunc pc rs = Fn (rs ! i)" by (simp add: getFunc_first)
  fix j
  assume j: "j < length rs" and cj: "inRange (rs ! j) pc"
  from own cj have "\<not> j < i" by blast
  then have "i = j \<or> i < j" by arith
  then show "fst (Rng (rs ! i)) \<le> fst (Rng (rs ! j))"
  proof
    assume "i = j"
    then show ?thesis by simp
  next
    assume "i < j"
    with assms j show ?thesis by (simp add: sorted_wrt_iff_nth_less)
  qed
next
  assume "\<forall>r\<in>set rs. \<not> inRange r pc"
  then show "getFunc pc rs = None" by (rule getFunc_none)
qed

theorem getFunc_first_owner_witness:
  "sorted_wrt (\<lambda>a b. fst (Rng a) \<le> fst (Rng b)) overlap_ranges \<and>
   getFunc 0x1900 overlap_ranges = Some 100 \<and>
   fst (Rng (overlap_ranges ! 0)) \<le> fst (Rng (overlap_ranges ! 1)) \<and>
   getFunc 0x9000 overlap_ranges = None"
proof -
  have s: "sorted_wrt (\<lambda>a b. fst (Rng a) \<le> fst (Rng b)) overlap_ranges"
    by (simp add: overlap_ranges_def)
  have o0: "inRange (overlap_ranges ! 0) 0x1900 \<and> (\<forall>j<0. \<not> inRange (overlap_ranges ! j) 0x1900)"
    by (simp add: overlap_ranges_def inRange_def)
  have o1: "inRange (overlap_ranges ! 1) 0x1900"
    by (simp add: overlap_ranges_def inRange_def)
  have none: "\<forall>r\<in>set overlap_ranges. \<not> inRange r 0x9000"
    by (simp add: overlap_ranges_def inRange_def)
  have len: "0 < length overlap_ranges" "1 < length overlap_ranges"
    by (simp_all add: overlap_ranges_def)
  note t = getFunc_first_owner [OF s, of "0x1900"]
  note u = getFunc_first_owner [OF s, of "0x9000"]
  from t len(1) o0 have a: "getFunc 0x1900 overlap_ranges = Fn (overlap_ranges ! 0) \<and>
      (\<forall>j<length overlap_ranges. inRange (overlap_ranges ! j) 0x1900 \<longrightarrow>
         fst (Rng (overlap_ranges ! 0)) \<le> fst (Rng (overlap_ranges ! j)))"
    by blast
  then have a1: "getFunc 0x1900 overlap_ranges = Some 100"
    by (simp add: overlap_ranges_def)
  from a len(2) o1 have a2: "fst (Rng (overlap_ranges ! 0)) \<le> fst (Rng (overlap_ranges ! 1))"
    by blast
  from u none have a3: "getFunc 0x9000 overlap_ranges = None" by blast
  from s a1 a2 a3 show ?thesis by simp
qed

text \<open>
  C3. For a generic function with several compiled instantiations, whose subprogram records
  all carry names that strip to the same canonical name \<open>base\<close>, present in the function
  index with the object \<open>p\<close>, the resolver emits one range per record (\<open>insts\<close> is any
  collection of such records among those the reader yields, counted with multiplicity),
  and every one of these ranges references the same object \<open>p\<close>.
\<close>

theorem getPCRanges_shares_function:
  assumes "sortSlice_contract srt" and "getPCRanges srt dw fs = Inr rs"
    and "fs base = Some (Some p)"
    and "mset insts \<subseteq># mset (entriesOf (Reader dw))"
    and "\<forall>e\<in>set insts. Tag e = TagSubprogram \<and>
           (\<exists>nm. Val e AttrName = Some (VString nm) \<and> withoutTypeParams nm = base) \<and>
           (\<exists>lo. Val e AttrLowpc = Some (VUint64 lo)) \<and>
           (\<exists>hi. Val e AttrHighpc = Some (VUint64 hi))"
  shows "mset (map (\<lambda>e. \<lparr>Rng = (lowpc e, highpc e), Fn = Some p\<rparr>) insts) \<subseteq># mset rs"
proof -
  have "\<forall>e\<in>set insts. entryRange fs e = Some \<lparr>Rng = (lowpc e, highpc e), Fn = Some p\<rparr>"
  proof
    fix e assume "e \<in> set insts"
    with assms(5) obtain nm lo hi where "Tag e = TagSubprogram"
      "Val e AttrName = Some (VString nm)" "withoutTypeParams nm = base"
      "Val e AttrLowpc = Some (VUint64 lo)" "Val e AttrHighpc = Some (VUint64 hi)"
      by blast
    with assms(3) show "entryRange fs e = Some \<lparr>Rng = (lowpc e, highpc e), Fn = Some p\<rparr>"
      by (simp add: entryRange_Some mapIndex_def lowpc_def highpc_def)
  qed
  then have "List.map_filter (entryRange fs) insts =
      map (\<lambda>e. \<lparr>Rng = (lowpc e, highpc e), Fn = Some p\<rparr>) insts"
    by (rule map_filter_all_Some)
  moreover have "mset (List.map_filter (entryRange fs) insts) \<subseteq>#
      mset (List.map_filter (entryRange fs) (entriesOf (Reader dw)))"
    using assms(4) by (rule mset_map_filter_mono)
  ultimately show ?thesis using getPCRanges_result(1) [OF assms(1,2)] by simp
qed

theorem getPCRanges_shares_function_witness:
  "getPCRanges insertionSort demo_dw (funcs demo_index) = Inr demo_ranges \<and>
   funcs demo_index ''main.Base'' = Some (Some 101) \<and>
   {#\<lparr>Rng = (0x2000, 0x2040), Fn = Some 101\<rparr>, \<lparr>Rng = (0x1000, 0x1030), Fn = Some 101\<rparr>#}
     \<subseteq># mset demo_ranges"
proof -
  let ?a = "subprogram 20 ''main.Base[go.shape.int]'' 0x2000 0x2040"
  let ?b = "subprogram 40 ''main.Base[go.shape.string]'' 0x1000 0x1030"
  have sub: "mset [?a, ?b] \<subseteq># mset (entriesOf (Reader demo_dw))"
  proof -
    have "mset (entriesOf (Reader demo_dw)) = mset [?a, ?b] +
        mset [demo_unit, demo_nameless, subprogram 30 ''main.Add'' 0x3000 0x3020,
          subprogram 50 ''runtime.main'' 0x7000 0x7100,
          subprogram 70 ''main.(*Box[go.shape.int]).Get'' 0x4000 0x4010]"
      by (simp add: demo_dw_def)
    then show ?thesis by simp
  qed
  have inst: "\<forall>e\<in>set [?a, ?b]. Tag e = TagSubprogram \<and>
           (\<exists>nm. Val e AttrName = Some (VString nm) \<and> withoutTypeParams nm = ''main.Base'') \<and>
           (\<exists>lo. Val e AttrLowpc = Some (VUint64 lo)) \<and>
           (\<exists>hi. Val e AttrHighpc = Some (VUint64 hi))"
    by (simp add: subprogram_def Val_def demo_strip)
  from getPCRanges_shares_function [OF insertionSort_contract demo_ranges_run
      demo_funcs_values(2) sub inst]
  have "{#\<lparr>Rng = (0x2000, 0x2040), Fn = Some 101\<rparr>, \<lparr>Rng = (0x1000, 0x1030), Fn = Some 101\<rparr>#}
     \<subseteq># mset demo_ranges"
    by (simp add: lowpc_def highpc_def subprogram_def Val_def)
  with demo_ranges_run demo_funcs_values(2) show ?thesis by simp
qed

text \<open>
  C4 as stated, that every emitted range has \<open>low < high\<close> and that a record with
  \<open>low \<ge> high\<close> is never inserted, fails: a record with equal bounds and one with
  inverted bounds are both emitted.
\<close>

theorem getPCRanges_low_below_high_counterexample:
  "getPCRanges insertionSort degenerate_dw (funcs demo_index) =
     Inr [\<lparr>Rng = (0x2040, 0x2000), Fn = Some 101\<rparr>, \<lparr>Rng = (0x5000, 0x5000), Fn = Some 100\<rparr>] \<and>
   \<not> (0x2040 :: uint64) < 0x2000 \<and> \<not> (0x5000 :: uint64) < 0x5000"
  by (simp add: getPCRanges_def degenerate_dw_def subprogram_def Val_def demo_strip
      demo_funcs_values mapIndex_def Let_def)

text \<open>
  C4, as amended. The resolver does not compare low and high. The ranges it emits are
  exactly those of the subprogram records that have a string name, a low PC and a high PC
  and whose stripped name is in the function index, each with the record's low and high as
  decoded, also when \<open>low \<ge> high\<close>. A range with \<open>low \<ge> high\<close> contains no address:
  the lookup answers as if it were not in the sequence.
\<close>

theorem getPCRanges_ranges_as_decoded:
  assumes "sortSlice_contract srt" and "getPCRanges srt dw fs = Inr rs"
  shows "(\<forall>r. r \<in> set rs \<longleftrightarrow>
            (\<exists>e\<in>set (entriesOf (Reader dw)). \<exists>nm.
               Tag e = TagSubprogram \<and> Val e AttrName = Some (VString nm) \<and>
               Val e AttrLowpc = Some (VUint64 (fst (Rng r))) \<and>
               Val e AttrHighpc = Some (VUint64 (snd (Rng r))) \<and>
               Fn r \<noteq> None \<and> Fn r = mapIndex fs (withoutTypeParams nm))) \<and>
         (\<forall>r pc xs ys. snd (Rng r) \<le> fst (Rng r) \<longrightarrow>
            getFunc pc (xs @ r # ys) = getFunc pc (xs @ ys))"
proof (intro conjI allI impI)
  fix r :: FuncRange
  have "set rs = set (List.map_filter (entryRange fs) (entriesOf (Reader dw)))"
    using getPCRanges_result(1) [OF assms] by (rule mset_eq_setD)
  then have mem: "r \<in> set rs \<longleftrightarrow> (\<exists>e\<in>set (entriesOf (Reader dw)). entryRange fs e = Some r)"
    by (simp add: set_map_filter)
  show "r \<in> set rs \<longleftrightarrow>
            (\<exists>e\<in>set (entriesOf (Reader dw)). \<exists>nm.
               Tag e = TagSubprogram \<and> Val e AttrName = Some (VString nm) \<and>
               Val e AttrLowpc = Some (VUint64 (fst (Rng r))) \<and>
               Val e AttrHighpc = Some (VUint64 (snd (Rng r))) \<and>
               Fn r \<noteq> None \<and> Fn r = mapIndex fs (withoutTypeParams nm))"
  proof
    assume "r \<in> set rs"
    with mem obtain e where "e \<in> set (entriesOf (Reader dw))" "entryRange fs e = Some r"
      by blast
    then show "\<exists>e\<in>set (entriesOf (Reader dw)). \<exists>nm.
               Tag e = TagSubprogram \<and> Val e AttrName = Some (VString nm) \<and>
               Val e AttrLowpc = Some (VUint64 (fst (Rng r))) \<and>
               Val e AttrHighpc = Some (VUint64 (snd (Rng r))) \<and>
               Fn r \<noteq> None \<and> Fn r = mapIndex fs (withoutTypeParams nm)"
      using entryRange_SomeD [of fs e r] by blast
  next
    assume "\<exists>e\<in>set (entriesOf (Reader dw)). \<exists>nm.
               Tag e = TagSubprogram \<and> Val e AttrName = Some (VString nm) \<and>
               Val e AttrLowpc = Some (VUint64 (fst (Rng r))) \<and>
               Val e AttrHighpc = Some (VUint64 (snd (Rng r))) \<and>
               Fn r \<noteq> None \<and> Fn r = mapIndex fs (withoutTypeParams nm)"
    then obtain e nm where e: "e \<in> set (entriesOf (Reader dw))"
      and h: "Tag e = TagSubprogram" "Val e AttrName = Some (VString nm)"
        "Val e AttrLowpc = Some (VUint64 (fst (Rng r)))"
        "Val e AttrHighpc = Some (VUint64 (snd (Rng r)))"
        "Fn r \<noteq> None" "Fn r = mapIndex fs (withoutTypeParams nm)"
      by blast
    from h(5,6) obtain p where p: "mapIndex fs (withoutTypeParams nm) = Some p" "Fn r = Some p"
      by (cases "Fn r") auto
    have "r = \<lparr>Rng = (fst (Rng r), snd (Rng r)), Fn = Some p\<rparr>"
      using p(2) by (cases r) simp
    with h(1-4) p(1) have "entryRange fs e = Some r"
      by (simp add: entryRange_Some [of e nm "fst (Rng r)" "snd (Rng r)" fs])
    with e mem show "r \<in> set rs" by blast
  qed
next
  fix r :: FuncRange and pc xs ys
  assume "snd (Rng r) \<le> fst (Rng r)"
  then have "\<not> inRange r pc" by (auto simp: inRange_def)
  then show "getFunc pc (xs @ r # ys) = getFunc pc (xs @ ys)"
    by (rule getFunc_drop_empty)
qed

theorem getPCRanges_ranges_as_decoded_witness:
  "getPCRanges insertionSort degenerate_dw (funcs demo_index) = Inr degenerate_ranges \<and>
   (\<exists>e\<in>set (entriesOf (Reader degenerate_dw)).
      Val e AttrLowpc = Some (VUint64 0x5000) \<and> Val e AttrHighpc = Some (VUint64 0x5000)) \<and>
   getFunc 0x5000 ([] @ \<lparr>Rng = (0x5000, 0x5000), Fn = Some 100\<rparr> # []) = getFunc 0x5000 ([] @ [])"
proof -
  note t = getPCRanges_ranges_as_decoded [OF insertionSort_contract degenerate_run]
  let ?r = "\<lparr>Rng = (0x5000, 0x5000), Fn = Some 100\<rparr> :: FuncRange"
  have mem: "?r \<in> set degenerate_ranges" by (simp add: degenerate_ranges_def)
  from mem t [THEN conjunct1, rule_format, of ?r]
  have "\<exists>e\<in>set (entriesOf (Reader degenerate_dw)).
      Val e AttrLowpc = Some (VUint64 0x5000) \<and> Val e AttrHighpc = Some (VUint64 0x5000)"
    by auto
  moreover from t [THEN conjunct2, rule_format, of ?r "0x5000" "[]" "[]"]
  have "getFunc 0x5000 ([] @ ?r # []) = getFunc 0x5000 ([] @ [])" by simp
  ultimately show ?thesis using degenerate_run by simp
qed

text \<open>
  C5. The sequence returned by the resolver is sorted ascending by low address, for every
  reader and every function index, whenever the resolver returns.
\<close>

theorem getPCRanges_sorted:
  assumes "sortSlice_contract srt" and "getPCRanges srt dw fs = Inr rs"
  shows "sorted_wrt (\<lambda>a b. fst (Rng a) \<le> fst (Rng b)) rs"
  using assms by (rule getPCRanges_result(2))

theorem getPCRanges_sorted_witness:
  "getPCRanges insertionSort demo_dw (funcs demo_index) = Inr demo_ranges \<and>
   sorted_wrt (\<lambda>a b. fst (Rng a) \<le> fst (Rng b)) demo_ranges"
  using getPCRanges_sorted [OF insertionSort_contract demo_ranges_run] demo_ranges_run
  by (rule conjI [rotated])

text \<open>
  C6. A subprogram record that lacks a name, a low PC or a high PC, or whose stripped name
  is absent from the function index, is skipped without error and no range is emitted for
  it: one pass of the loop over it leaves the slice as it was and does not panic, and the
  resolver's result on any reader is the result on the reader without that record.
\<close>

theorem getPCRanges_skips_unusable:
  assumes "Tag e = TagSubprogram"
    and "Val e AttrName = None \<or> Val e AttrLowpc = None \<or> Val e AttrHighpc = None \<or>
      (\<exists>nm. Val e AttrName = Some (VString nm) \<and> fs (withoutTypeParams nm) = None)"
  shows "collectRanges fs [Inr e] r = Inr r \<and>
         getPCRanges srt (dw\<lparr>Reader := pre @ Inr e # post\<rparr>) fs =
           getPCRanges srt (dw\<lparr>Reader := pre @ post\<rparr>) fs"
proof -
  have none: "entryRange fs e = None" using assms(2) by (rule entryRange_None)
  have step: "collectRanges fs (Inr e # rest) acc = collectRanges fs rest acc" for rest acc
    using none by (simp only: collectRanges_step option.case)
  have one: "collectRanges fs [Inr e] r = Inr r"
    unfolding step by simp
  have "collectRanges fs (pre @ Inr e # post) [] = collectRanges fs (pre @ post) []"
    unfolding collectRanges_append step by (rule refl)
  then have "getPCRanges srt (dw\<lparr>Reader := pre @ Inr e # post\<rparr>) fs =
      getPCRanges srt (dw\<lparr>Reader := pre @ post\<rparr>) fs"
    by (simp add: getPCRanges_def)
  with one show ?thesis by (rule conjI)
qed

theorem getPCRanges_skips_unusable_witness:
  "Tag demo_nameless = TagSubprogram \<and> Val demo_nameless AttrName = None \<and>
   collectRanges (funcs demo_index) [Inr demo_nameless] [] = Inr [] \<and>
   getPCRanges insertionSort
     (demo_dw\<lparr>Reader := [Inr demo_unit] @ Inr demo_nameless #
        [Inr (subprogram 30 ''main.Add'' 0x3000 0x3020)]\<rparr>) (funcs demo_index) =
   getPCRanges insertionSort
     (demo_dw\<lparr>Reader := [Inr demo_unit] @
        [Inr (subprogram 30 ''main.Add'' 0x3000 0x3020)]\<rparr>) (funcs demo_index) \<and>
   funcs demo_index (withoutTypeParams ''runtime.main'') = None \<and>
   collectRanges (funcs demo_index) [Inr (subprogram 50 ''runtime.main'' 0x7000 0x7100)] [] = Inr []"
proof -
  have t1: "Tag demo_nameless = TagSubprogram" by (simp add: demo_nameless_def)
  have n1: "Val demo_nameless AttrName = None" by (simp add: demo_nameless_def Val_def)
  then have d1: "Val demo_nameless AttrName = None \<or> Val demo_nameless AttrLowpc = None \<or>
      Val demo_nameless AttrHighpc = None \<or>
      (\<exists>nm. Val demo_nameless AttrName = Some (VString nm) \<and>
         funcs demo_index (withoutTypeParams nm) = None)"
    by (rule disjI1)
  let ?e = "subprogram 50 ''runtime.main'' 0x7000 0x7100"
  have t2: "Tag ?e = TagSubprogram" by (simp add: subprogram_def)
  have a2: "funcs demo_index (withoutTypeParams ''runtime.main'') = None"
    by (simp add: demo_strip demo_funcs_values)
  have "Val ?e AttrName = Some (VString ''runtime.main'')" by (simp add: subprogram_def Val_def)
  with a2 have d2: "Val ?e AttrName = None \<or> Val ?e AttrLowpc = None \<or>
      Val ?e AttrHighpc = None \<or>
      (\<exists>nm. Val ?e AttrName = Some (VString nm) \<and>
         funcs demo_index (withoutTypeParams nm) = None)"
    by blast
  note w1 = getPCRanges_skips_unusable [OF t1 d1, where r = "[]" and srt = insertionSort
      and dw = demo_dw and pre = "[Inr demo_unit]"
      and post = "[Inr (subprogram 30 ''main.Add'' 0x3000 0x3020)]"]
  note w2 = getPCRanges_skips_unusable [OF t2 d2, where r = "[]" and srt = insertionSort
      and dw = demo_dw and pre = "[]" and post = "[]"]
  from w1 w2 t1 n1 a2 show ?thesis by simp
qed

text \<open>
  C7. A LineEntry whose address lies outside every range is skipped silently: the lookup
  returns none, and the line loop over a program containing the row behaves, in output and
  in outcome, as over the program without it.
\<close>

theorem checkLines_skips_unowned:
  assumes "\<forall>r\<in>set funcRanges. \<not> (fst (Rng r) \<le> Address lne \<and> Address lne < snd (Rng r))"
  shows "getFunc (Address lne) funcRanges = None \<and>
         lineLoop base mem funcRanges (pre @ Inr lne # post) out =
           lineLoop base mem funcRanges (pre @ post) out"
proof -
  have n: "getFunc (Address lne) funcRanges = None"
    using assms by (simp add: getFunc_none inRange_def)
  have step: "lineLoop base mem funcRanges (Inr lne # post) o1 =
      lineLoop base mem funcRanges post o1" for o1
    using n by (simp add: onlyStmt_def)
  have "lineLoop base mem funcRanges (pre @ Inr lne # post) out =
      lineLoop base mem funcRanges (pre @ post) out"
    unfolding lineLoop_append step by (rule refl)
  with n show ?thesis by (rule conjI)
qed

theorem checkLines_skips_unowned_witness:
  "getFunc (Address (demo_row 0x9000 1)) demo_ranges = None \<and>
   lineLoop demo_base (cells demo_index) demo_ranges
     ([Inr (demo_row 0x3000 99)] @ Inr (demo_row 0x9000 1) # [Inr (demo_row 0x4008 12)]) [] =
   lineLoop demo_base (cells demo_index) demo_ranges
     ([Inr (demo_row 0x3000 99)] @ [Inr (demo_row 0x4008 12)]) []"
proof -
  have h: "\<forall>r\<in>set demo_ranges. \<not> (fst (Rng r) \<le> Address (demo_row 0x9000 1) \<and>
       Address (demo_row 0x9000 1) < snd (Rng r))"
    by (simp add: demo_ranges_def demo_row_def)
  from checkLines_skips_unowned [OF h, where base = demo_base and mem = "cells demo_index"
      and pre = "[Inr (demo_row 0x3000 99)]" and post = "[Inr (demo_row 0x4008 12)]"
      and out = "[]"]
  show ?thesis .
qed



text \<open>
  C9. The pipeline is deterministic: two runs on the same parsed source and the same
  decoded debug information produce the same Violation stream, in the same order. The two
  runs need not start alike: each finds its own store (\<open>st1\<close>, \<open>st2\<close>), so it builds
  its function index at addresses of its own, and each finds its own earlier output
  (\<open>out1\<close>, \<open>out2\<close>). Both append the same stream \<open>vs\<close> and end the same way
  (normally, or with the same panic). The sort is the same routine in both runs and is
  held to what \<open>sort.Slice\<close> documents and to reaching the elements through \<open>less\<close>
  only.
\<close>

theorem pipeline_deterministic:
  assumes "sortSlice_contract srt" and "sortSlice_parametric srt"
  shows "\<exists>vs res.
           pipeline srt base exprToString parsed dw st1 out1 = (out1 @ vs, res) \<and>
           pipeline srt base exprToString parsed dw st2 out2 = (out2 @ vs, res)"
proof (cases parsed)
  case (Inl err)
  then have "pipeline srt base exprToString parsed dw st1 out1 = (out1 @ [], Some (ErrorPanic err))"
    "pipeline srt base exprToString parsed dw st2 out2 = (out2 @ [], Some (ErrorPanic err))"
    by (simp_all add: pipeline_def getLineRanges_def)
  then show ?thesis by blast
next
  case (Inr ds)
  let ?s1 = "st1\<lparr>funcs := (\<lambda>k. None)\<rparr>" and ?s2 = "st2\<lparr>funcs := (\<lambda>k. None)\<rparr>"
  have init: "sameIndex (fresh st1) (fresh st2) ?s1 ?s2" by (rule sameIndex_initial)
  from sameIndex_inspectDecls [OF init, of exprToString ds]
  show ?thesis
  proof (elim disjE exE conjE)
    fix p
    assume "inspectDecls exprToString ds ?s1 = Inl p" "inspectDecls exprToString ds ?s2 = Inl p"
    with Inr have "pipeline srt base exprToString parsed dw st1 out1 = (out1 @ [], Some p)"
      "pipeline srt base exprToString parsed dw st2 out2 = (out2 @ [], Some p)"
      by (simp_all add: pipeline_def getLineRanges_def)
    then show ?thesis by blast
  next
    fix t1 t2
    assume r1: "inspectDecls exprToString ds ?s1 = Inr t1"
      and r2: "inspectDecls exprToString ds ?s2 = Inr t2"
      and same: "sameIndex (fresh st1) (fresh st2) t1 t2"
    let ?\<pi> = "\<lambda>p. p + fresh st2 - fresh st1"
    from same have fs: "\<forall>k. funcs t2 k = map_option (map_option ?\<pi>) (funcs t1 k)"
      and rg: "\<forall>k p. funcs t1 k = Some (Some p) \<longrightarrow> fresh st1 \<le> p \<and> p < fresh t1"
      and cl: "\<forall>p. fresh st1 \<le> p \<and> p < fresh t1 \<longrightarrow> cells t2 (?\<pi> p) = cells t1 p"
      by (simp_all add: sameIndex_def)
    have mem: "\<forall>k p. funcs t1 k = Some (Some p) \<longrightarrow> cells t2 (?\<pi> p) = cells t1 p"
      using rg cl by blast
    let ?vs = "fst (checkStages srt base (cells t1) dw (funcs t1) [])"
    let ?res = "snd (checkStages srt base (cells t1) dw (funcs t1) [])"
    have a: "pipeline srt base exprToString parsed dw st1 out1 = (out1 @ ?vs, ?res)"
      using Inr r1 checkStages_output [of srt base "cells t1" dw "funcs t1" out1]
      by (simp add: pipeline_def getLineRanges_def)
    have "checkStages srt base (cells t2) dw (funcs t2) out2 =
        checkStages srt base (cells t1) dw (funcs t1) out2"
      using assms fs mem by (rule checkStages_move)
    then have b: "pipeline srt base exprToString parsed dw st2 out2 = (out2 @ ?vs, ?res)"
      using Inr r2 checkStages_output [of srt base "cells t1" dw "funcs t1" out2]
      by (simp add: pipeline_def getLineRanges_def)
    from a b show ?thesis by blast
  qed
qed

theorem pipeline_deterministic_witness:
  "pipeline insertionSort demo_base (\<lambda>t. t) (Inr demo_decls) demo_dw demo_init [] =
     ([\<lparr>vFile = ''file.go'', vLine = 99, vAddress = 0x3000, vFunc = ''main.Add''\<rparr>], None) \<and>
   pipeline insertionSort demo_base (\<lambda>t. t) (Inr demo_decls) demo_dw (demo_init\<lparr>fresh := 7\<rparr>)
     [\<lparr>vFile = ''old.go'', vLine = 1, vAddress = 0, vFunc = ''main.old''\<rparr>] =
     ([\<lparr>vFile = ''old.go'', vLine = 1, vAddress = 0, vFunc = ''main.old''\<rparr>,
       \<lparr>vFile = ''file.go'', vLine = 99, vAddress = 0x3000, vFunc = ''main.Add''\<rparr>], None)"
proof -
  from pipeline_deterministic [OF insertionSort_contract insertionSort_parametric,
      where base = demo_base and exprToString = "\<lambda>t. t" and parsed = "Inr demo_decls"
      and dw = demo_dw and ?st1.0 = demo_init and ?out1.0 = "[]"
      and ?st2.0 = "demo_init\<lparr>fresh := 7\<rparr>"
      and ?out2.0 = "[\<lparr>vFile = ''old.go'', vLine = 1, vAddress = 0, vFunc = ''main.old''\<rparr>]"]
  obtain vs res where
    a: "pipeline insertionSort demo_base (\<lambda>t. t) (Inr demo_decls) demo_dw demo_init [] =
        ([] @ vs, res)"
    and b: "pipeline insertionSort demo_base (\<lambda>t. t) (Inr demo_decls) demo_dw
        (demo_init\<lparr>fresh := 7\<rparr>)
        [\<lparr>vFile = ''old.go'', vLine = 1, vAddress = 0, vFunc = ''main.old''\<rparr>] =
        ([\<lparr>vFile = ''old.go'', vLine = 1, vAddress = 0, vFunc = ''main.old''\<rparr>] @ vs, res)"
    by (elim exE conjE) (rule that)
  from a demo_pipeline_run have "vs = [\<lparr>vFile = ''file.go'', vLine = 99, vAddress = 0x3000,
      vFunc = ''main.Add''\<rparr>]" "res = None"
    by simp_all
  with b demo_pipeline_run show ?thesis by simp
qed

text \<open>
  C10. The generic-suffix stripping function is idempotent: applying it twice to any
  string gives the same result as applying it once. It is the identity on every string
  that does not contain a \<open>[\<close> occurring before a \<open>]\<close>, that is, on every string with
  no pair of positions \<open>i < j\<close> holding \<open>[\<close> at \<open>i\<close> and \<open>]\<close> at \<open>j\<close>.
\<close>

theorem withoutTypeParams_idempotent_identity:
  "withoutTypeParams (withoutTypeParams s) = withoutTypeParams s \<and>
   ((\<nexists>i j. i < j \<and> j < length s \<and> s ! i = CHR ''['' \<and> s ! j = CHR '']'')
      \<longrightarrow> withoutTypeParams s = s)"
proof (intro conjI impI)
  let ?i = "strings_Index s (CHR ''['')"
  let ?j = "strings_LastIndex s (CHR '']'')"
  show "withoutTypeParams (withoutTypeParams s) = withoutTypeParams s"
  proof (cases "0 \<le> ?i \<and> 0 \<le> ?j \<and> ?i < ?j")
    case True
    then have "withoutTypeParams s = take (nat ?i) s @ drop (nat (?j + 1)) s"
      by (simp add: withoutTypeParams_def Let_def)
    moreover have "withoutTypeParams (take (nat ?i) s @ drop (nat (?j + 1)) s)
        = take (nat ?i) s @ drop (nat (?j + 1)) s"
      by (rule withoutTypeParams_fixed)
        (rule strings_Index_prefix_free, rule strings_LastIndex_suffix_free)
    ultimately show ?thesis by simp
  next
    case False
    then have "withoutTypeParams s = s"
      by (auto simp: withoutTypeParams_def Let_def)
    then show ?thesis by simp
  qed
next
  let ?i = "strings_Index s (CHR ''['')"
  let ?j = "strings_LastIndex s (CHR '']'')"
  assume none: "\<nexists>i j. i < j \<and> j < length s \<and> s ! i = CHR ''['' \<and> s ! j = CHR '']''"
  have "\<not> (0 \<le> ?i \<and> 0 \<le> ?j \<and> ?i < ?j)"
  proof
    assume c: "0 \<le> ?i \<and> 0 \<le> ?j \<and> ?i < ?j"
    then have "nat ?i < nat ?j" by simp
    moreover have "nat ?j < length s"
      using c strings_LastIndex_upper [of s "CHR '']''"] by linarith
    moreover have "s ! nat ?i = CHR ''[''" using c by (simp add: strings_Index_hit)
    moreover have "s ! nat ?j = CHR '']''" using c by (simp add: strings_LastIndex_hit)
    ultimately show False using none by blast
  qed
  then show "withoutTypeParams s = s"
    by (auto simp: withoutTypeParams_def Let_def)
qed

theorem withoutTypeParams_idempotent_identity_witness:
  "withoutTypeParams (withoutTypeParams ''a]b[c]d[e'') = withoutTypeParams ''a]b[c]d[e'' \<and>
   withoutTypeParams ''a]b[c]d[e'' = ''a]bd[e'' \<and>
   (\<nexists>i j. i < j \<and> j < length ''Box]int['' \<and> ''Box]int['' ! i = CHR ''[''
       \<and> ''Box]int['' ! j = CHR '']'') \<and>
   withoutTypeParams ''Box]int['' = ''Box]int[''"
proof -
  have none: "\<nexists>i j. i < j \<and> j < length ''Box]int['' \<and> ''Box]int['' ! i = CHR ''[''
       \<and> ''Box]int['' ! j = CHR '']''"
  proof
    assume "\<exists>i j. i < j \<and> j < length ''Box]int['' \<and> ''Box]int['' ! i = CHR ''[''
       \<and> ''Box]int['' ! j = CHR '']''"
    then obtain i j where ij: "i < j" "j < 8" "''Box]int['' ! i = CHR ''[''"
        "''Box]int['' ! j = CHR '']''"
      by auto
    from ij(2) have "j \<in> {0, 1, 2, 3, 4, 5, 6, 7}" by auto
    with ij(4) have "j = 3" by (auto simp: nth_Cons')
    with ij(1) have "i \<in> {0, 1, 2}" by auto
    with ij(3) show False by (auto simp: nth_Cons')
  qed
  have run: "withoutTypeParams ''a]b[c]d[e'' = ''a]bd[e''"
    by (simp add: withoutTypeParams_def Let_def)
  from withoutTypeParams_idempotent_identity [of "''a]b[c]d[e''"]
    withoutTypeParams_idempotent_identity [of "''Box]int[''"] none run
  show ?thesis by blast
qed

end
